theory Spec2Isabelle
  imports Main "HOL-Library.Multiset"
begin

text \<open>
  A shallow embedding of the orchestration core of the Gemini MCP server: the token
  estimators, the resolution of credentials, the rotating retry executor, the
  deterministic and the assisted grouping of files, the re-hydration of a group plan
  and the coordinator of the per-group analyses. The functions keep their names;
  everything outside the process (the model's answers, the clock, the file system, the
  JSON parser) is a parameter. The definitions come first, their properties after.
\<close>

section \<open>Data model\<close>

text \<open>
  Values produced by \<open>JSON.parse\<close>. The grouping proposal of the assistant and the
  serialized group plan are such values; the optional metadata of a group
  (\<open>name\<close>, \<open>description\<close>, \<open>reasoning\<close>, \<open>customPrompt\<close>) is copied from them
  unchecked, so a group stores it as an optional JSON value (\<open>None\<close> is \<open>undefined\<close>).
\<close>

datatype json =
    JNull
  | JBool bool
  | JNum int
  | JStr string
  | JArr "json list"
  | JObj "(string \<times> json) list"

text \<open>
  \<open>interface FileTokenInfo\<close> and \<open>interface FileGroup\<close>. Token counts are integral
  JavaScript numbers, modelled as \<open>int\<close> (their sums are formed by \<open>numberPlus\<close>
  below, which rounds as the doubles do). The serialized plan keeps of every file only
  \<open>{filePath, tokens}\<close> (\<open>FileData\<close>), which \<open>FileTokenInfo\<close> extends with the content;
  a group of the plan and a group in memory differ in the type of their files only.
\<close>

record FileData =
  filePath :: string
  tokens :: int

record FileTokenInfo = FileData +
  content :: string

record 'f Group =
  files :: "'f list"
  totalTokens :: int
  groupIndex :: nat
  name :: "json option"
  description :: "json option"
  reasoning :: "json option"
  customPrompt :: "json option"

type_synonym FileGroup = "FileTokenInfo Group"

section \<open>JavaScript numbers\<close>

text \<open>
  Every number of the program is an IEEE-754 double. The token costs are integral and the
  model keeps them as integers; what it takes from the doubles is the rounding of their
  arithmetic: the result of an operation is the exact value rounded to 53 significant
  bits, ties to even. \<open>bitLength\<close> is the number of significant bits of a natural
  number and \<open>round53\<close> the rounding of one.
\<close>

fun bitLength :: "nat \<Rightarrow> nat" where
  "bitLength n = (if n = 0 then 0 else Suc (bitLength (n div 2)))"

declare bitLength.simps [simp del]

definition roundAt :: "nat \<Rightarrow> nat \<Rightarrow> nat" where
  \<comment> \<open>drop the low \<open>sh\<close> bits, rounding to nearest, ties to even\<close>
  "roundAt sh N =
     (let q = N div 2 ^ sh; r = N mod 2 ^ sh
      in (if 2 * r > 2 ^ sh \<or> (2 * r = 2 ^ sh \<and> odd q) then q + 1 else q) * 2 ^ sh)"

definition round53 :: "nat \<Rightarrow> nat" where
  "round53 N = roundAt (bitLength N - 53) N"

text \<open>
  \<open>a + b\<close> on two integral doubles: the exact sum, rounded. The sum is exact as long as
  its magnitude stays below \<open>2 ^ 53\<close>; from there on it is rounded to a multiple of two,
  then of four, and so on. (A sum beyond the largest double, about \<open>1.8e308\<close>, is
  \<open>Infinity\<close> in JavaScript and has no counterpart here.)
\<close>

definition numberPlus :: "int \<Rightarrow> int \<Rightarrow> int" where
  "numberPlus a b =
     (let s = a + b
      in if s < 0 then - int (round53 (nat (- s))) else int (round53 (nat s)))"

section \<open>The deterministic grouping strategy\<close>

text \<open>A group as \<open>createFileGroupsAlgorithmic\<close> pushes it: files, total and index,
  no metadata.\<close>

definition plainGroup :: "FileTokenInfo list \<Rightarrow> int \<Rightarrow> nat \<Rightarrow> FileGroup" where
  "plainGroup fs tot idx =
     \<lparr>files = fs, totalTokens = tot, groupIndex = idx,
      name = None, description = None, reasoning = None, customPrompt = None\<rparr>"

text \<open>
  The \<open>for (const file of sortedFiles)\<close> loop of \<open>createFileGroupsAlgorithmic\<close> with
  its four mutable variables \<open>groups\<close>, \<open>currentGroup\<close>, \<open>currentTokens\<close> and
  \<open>groupIndex\<close> passed explicitly; the first equation is the code after the loop.
  \<open>currentTokens + file.tokens\<close> and \<open>currentTokens += file.tokens\<close> are additions of
  doubles. The ceiling is taken integral: the costs and their sums are integral, so a
  ceiling with a fraction compares with them as its integral part does.
\<close>

fun groupLoop ::
  "int \<Rightarrow> FileTokenInfo list \<Rightarrow> FileGroup list \<Rightarrow> FileTokenInfo list \<Rightarrow> int \<Rightarrow> nat
    \<Rightarrow> FileGroup list" where
  "groupLoop maxTokensPerGroup [] groups currentGroup currentTokens idx =
     (if currentGroup \<noteq> []
      then groups @ [plainGroup currentGroup currentTokens idx]
      else groups)"
| "groupLoop maxTokensPerGroup (file # rest) groups currentGroup currentTokens idx =
     (if tokens file > maxTokensPerGroup
      then groupLoop maxTokensPerGroup rest
             (groups @ [plainGroup [file] (tokens file) idx])
             currentGroup currentTokens (idx + 1)
      else if numberPlus currentTokens (tokens file) > maxTokensPerGroup
              \<and> currentGroup \<noteq> []
      then groupLoop maxTokensPerGroup rest
             (groups @ [plainGroup currentGroup currentTokens idx])
             [file] (tokens file) (idx + 1)
      else groupLoop maxTokensPerGroup rest groups
             (currentGroup @ [file]) (numberPlus currentTokens (tokens file)) idx)"

text \<open>
  \<open>[...files].sort((a, b) => a.tokens - b.tokens)\<close> is a stable ascending sort on the
  token count, which is what \<open>sort_key\<close> computes (the difference of two doubles is
  rounded, but its sign is that of the exact difference).
\<close>

definition createFileGroupsAlgorithmic ::
  "FileTokenInfo list \<Rightarrow> int \<Rightarrow> nat \<Rightarrow> FileGroup list" where
  "createFileGroupsAlgorithmic fs maxTokensPerGroup startIndex =
     groupLoop maxTokensPerGroup (sort_key tokens fs) [] [] 0 startIndex"

text \<open>The condition the ceiling puts on one group: within the ceiling, or a single
  file that is itself above it.\<close>

definition withinCeiling :: "int \<Rightarrow> FileGroup \<Rightarrow> bool" where
  "withinCeiling maxTokensPerGroup g \<longleftrightarrow>
     totalTokens g \<le> maxTokensPerGroup
     \<or> (case files g of [f] \<Rightarrow> tokens f > maxTokensPerGroup | _ \<Rightarrow> False)"

definition allFiles :: "FileGroup list \<Rightarrow> FileTokenInfo list" where
  "allFiles gs = concat (map files gs)"

definition totalOk :: "FileGroup \<Rightarrow> bool" where
  "totalOk g \<longleftrightarrow> totalTokens g = sum_list (map tokens (files g))"

text \<open>A file lies in exactly one group: exactly one position of the group list holds it.\<close>

definition inExactlyOneGroup :: "FileGroup list \<Rightarrow> FileTokenInfo \<Rightarrow> bool" where
  "inExactlyOneGroup gs f \<longleftrightarrow> (\<exists>!i. i < length gs \<and> f \<in> set (files (gs ! i)))"

section \<open>Token estimator\<close>

subsection \<open>Double-precision products\<close>

text \<open>
  The estimator multiplies a count by a literal (\<open>0.5\<close>, \<open>0.1\<close>, \<open>0.2\<close>, \<open>0.3\<close>, \<open>2\<close>) in
  IEEE-754 double precision and applies \<open>Math.ceil\<close>. A positive double literal is
  \<open>mant / 2 ^ expo\<close>; the product with a count \<open>n\<close> is the exact rational
  \<open>n * mant / 2 ^ expo\<close> rounded to 53 significant bits, ties to even. Rounding acts on
  the numerator alone (counts are far below the overflow and above the subnormal range).
\<close>

record double =
  mant :: nat
  expo :: nat

definition ceilTimes :: "nat \<Rightarrow> double \<Rightarrow> nat" where
  \<comment> \<open>\<open>Math.ceil(n * c)\<close>\<close>
  "ceilTimes n c = (round53 (n * mant c) + 2 ^ expo c - 1) div 2 ^ expo c"

definition d0_5 :: double where "d0_5 = \<lparr>mant = 1, expo = 1\<rparr>"
definition d0_1 :: double where "d0_1 = \<lparr>mant = 3602879701896397, expo = 55\<rparr>"
definition d0_2 :: double where "d0_2 = \<lparr>mant = 3602879701896397, expo = 54\<rparr>"
definition d0_3 :: double where "d0_3 = \<lparr>mant = 5404319552844595, expo = 54\<rparr>"
definition d2 :: double where "d2 = \<lparr>mant = 2, expo = 0\<rparr>"

subsection \<open>Pattern counts\<close>

text \<open>\<open>(text.match(/\n/g) || []).length\<close> and \<open>(text.match(/ /g) || []).length\<close>: the
  number of line feeds and of spaces. A string is its list of UTF-16 code units, of
  which only ASCII ones are told apart.\<close>

definition newlineCount :: "string \<Rightarrow> nat" where
  "newlineCount text = length (filter (\<lambda>c. c = CHR 0x0A) text)"

definition spaceCount :: "string \<Rightarrow> nat" where
  "spaceCount text = length (filter (\<lambda>c. c = CHR '' '') text)"

text \<open>The character class \<open>[{}[\]();,.<>\/\\=+\-*&|!@#$%^`~]\<close> of the source: 27
  characters.\<close>

definition specialChars :: "char list" where
  "specialChars =
     [CHR ''{'', CHR ''}'', CHR ''['', CHR '']'', CHR ''('', CHR '')'', CHR '';'', CHR '','',
      CHR ''.'', CHR ''<'', CHR ''>'', CHR ''/'', CHR 0x5C, CHR ''='', CHR ''+'', CHR ''-'',
      CHR ''*'', CHR ''&'', CHR ''|'', CHR ''!'', CHR ''@'', CHR ''#'', CHR ''$'', CHR ''%'',
      CHR ''^'', CHR 0x60, CHR ''~'']"

definition specialCharsCount :: "string \<Rightarrow> nat" where
  "specialCharsCount text = length (filter (\<lambda>c. c \<in> set specialChars) text)"

text \<open>\<open>(content.match(/ {2,}/g) || []).length\<close>: the scan finds, left to right, the
  maximal runs of two or more spaces.\<close>

function multiSpaceCount :: "string \<Rightarrow> nat" where
  "multiSpaceCount [] = 0"
| "multiSpaceCount [c] = 0"
| "multiSpaceCount (c # d # rest) =
     (if c = CHR '' '' \<and> d = CHR '' ''
      then 1 + multiSpaceCount (dropWhile (\<lambda>x. x = CHR '' '') rest)
      else multiSpaceCount (d # rest))"
  by pat_completeness auto
termination
  by (relation "measure length") (auto simp: less_Suc_eq_le intro: le_trans [OF length_dropWhile_le])

text \<open>
  \<open>content.match(/(function|class|interface|import|export|const|let|var)/g)\<close>: at each
  position the alternatives are tried in order; after a match the scan goes on behind
  it (behind the next code unit, were the match empty), otherwise one code unit on.
\<close>

definition codeStructures :: "string list" where
  "codeStructures =
     [''function'', ''class'', ''interface'', ''import'', ''export'', ''const'', ''let'', ''var'']"

fun matchAt :: "string list \<Rightarrow> string \<Rightarrow> string option" where
  "matchAt [] s = None"
| "matchAt (k # ks) s = (if take (length k) s = k then Some k else matchAt ks s)"

function countMatches :: "string list \<Rightarrow> string \<Rightarrow> nat" where
  "countMatches ks [] = 0"
| "countMatches ks (c # s) =
     (case matchAt ks (c # s) of
        Some k \<Rightarrow> 1 + countMatches ks (drop (max 1 (length k)) (c # s))
      | None \<Rightarrow> countMatches ks s)"
  by pat_completeness auto
termination
  by (relation "measure (\<lambda>(ks, s). length s)") auto

definition codeStructuresCount :: "string \<Rightarrow> nat" where
  "codeStructuresCount text = countMatches codeStructures text"

subsection \<open>The estimators and the limit check\<close>

definition basicEstimate :: "string \<Rightarrow> nat" where
  \<comment> \<open>\<open>Math.ceil(text.length / 4)\<close>; the division by four is exact in doubles\<close>
  "basicEstimate text = (length text + 3) div 4"

definition calculateTokens :: "string \<Rightarrow> nat" where
  "calculateTokens text =
     basicEstimate text
     + ceilTimes (newlineCount text) d0_5
     + ceilTimes (spaceCount text) d0_1
     + ceilTimes (specialCharsCount text) d0_2"

definition calculateFileTokens :: "string \<Rightarrow> nat" where
  "calculateFileTokens text =
     basicEstimate text
     + ceilTimes (newlineCount text) d0_5
     + ceilTimes (multiSpaceCount text) d0_3
     + ceilTimes (specialCharsCount text) d0_2
     + ceilTimes (codeStructuresCount text) d2"

text \<open>The error of \<open>validateTokenLimit\<close>, by the quantities its message reports.\<close>

record TokenLimitExceeded =
  contentTokens :: nat
  systemTokens :: nat
  questionTokens :: nat
  totalTokensUsed :: nat
  exceededBy :: nat

definition GEMINI_25_PRO_TOKEN_LIMIT :: nat where
  "GEMINI_25_PRO_TOKEN_LIMIT = 1000000"

definition validateTokenLimit :: "string \<Rightarrow> string \<Rightarrow> string \<Rightarrow> TokenLimitExceeded + unit" where
  "validateTokenLimit text systemPrompt question =
     (let contentTokens = calculateTokens text;
          systemTokens = calculateTokens systemPrompt;
          questionTokens = calculateTokens question;
          totalTokens = contentTokens + systemTokens + questionTokens
      in if totalTokens > GEMINI_25_PRO_TOKEN_LIMIT
         then Inl \<lparr>contentTokens = contentTokens, systemTokens = systemTokens,
                   questionTokens = questionTokens, totalTokensUsed = totalTokens,
                   exceededBy = totalTokens - GEMINI_25_PRO_TOKEN_LIMIT\<rparr>
         else Inr ())"

text \<open>Two properties of a keyword list under which appending text cannot lose a match:
  no keyword is a prefix of another, and a proper prefix of a keyword holds no match.\<close>

definition prefixFree :: "string list \<Rightarrow> bool" where
  "prefixFree ks \<longleftrightarrow>
     list_all (\<lambda>k. list_all (\<lambda>k'. take (length k) k' = k \<longrightarrow> k = k') ks) ks"

definition noInnerMatch :: "string list \<Rightarrow> bool" where
  "noInnerMatch ks \<longleftrightarrow>
     list_all (\<lambda>k. k \<noteq> [] \<and> list_all (\<lambda>n. countMatches ks (take n k) = 0) [0..<length k]) ks"

section \<open>Credential rotation executor\<close>

text \<open>A thrown JavaScript \<open>Error\<close>, by its message.\<close>

datatype Error = Error (message: string)

text \<open>\<open>String.prototype.includes\<close>: the second string occurs in the first.\<close>

fun includesStr :: "string \<Rightarrow> string \<Rightarrow> bool" where
  "includesStr [] sub = (sub = [])"
| "includesStr (c # s) sub = (take (length sub) (c # s) = sub \<or> includesStr s sub)"

text \<open>The classification \<open>isRotatableError\<close> of \<open>retryWithApiKeyRotation\<close>; an empty
  message is falsy.\<close>

definition isRotatableError :: "string \<Rightarrow> bool" where
  "isRotatableError msg \<longleftrightarrow>
     msg \<noteq> [] \<and>
     (includesStr msg ''429''
      \<or> includesStr msg ''Too Many Requests''
      \<or> includesStr msg ''quota''
      \<or> includesStr msg ''rate limit''
      \<or> includesStr msg ''exceeded your current quota''
      \<or> includesStr msg ''API key not valid''
      \<or> includesStr msg ''503''
      \<or> includesStr msg ''Service Unavailable''
      \<or> includesStr msg ''overloaded''
      \<or> includesStr msg ''Please try again later'')"

text \<open>Decimal rendering of a number in a template literal.\<close>

definition digits :: string where
  "digits = ''0123456789''"

fun showNat :: "nat \<Rightarrow> string" where
  "showNat n =
     (if n < 10 then [digits ! n]
      else showNat (n div 10) @ [digits ! (n mod 10)])"

declare showNat.simps [simp del]

text \<open>
  One call \<open>requestFn(createModelFn(currentApiKey))\<close> either returns a result or throws.
  The outside world is a function from the number of the attempt and the credential
  used (\<open>None\<close> is \<open>undefined\<close>, what an index outside the pool reads) to the outcome of
  that call and the milliseconds the attempt takes, the fixed backoff not counted.
\<close>

datatype 'a response = Returns 'a | Throws Error

type_synonym 'a requestFn = "nat \<Rightarrow> string option \<Rightarrow> 'a response \<times> nat"

text \<open>
  What the executor does, as its log records it: the value returned or the error
  thrown, the number of attempts, the credentials tried in order and the time spent.
\<close>

record 'a rotation =
  outcome :: "Error + 'a"
  attempts :: nat
  keysTried :: "string option list"
  elapsedMs :: nat

text \<open>\<open>apiKeys[currentKeyIndex]\<close> and \<open>(currentKeyIndex + 1) % apiKeys.length\<close>; the
  remainder by zero is \<open>NaN\<close>, modelled by \<open>None\<close>, and stays so.\<close>

definition keyAt :: "string list \<Rightarrow> nat option \<Rightarrow> string option" where
  "keyAt apiKeys idx =
     (case idx of
        None \<Rightarrow> None
      | Some i \<Rightarrow> if i < length apiKeys then Some (apiKeys ! i) else None)"

definition nextKeyIndex :: "string list \<Rightarrow> nat option \<Rightarrow> nat option" where
  "nextKeyIndex apiKeys idx =
     (case idx of
        None \<Rightarrow> None
      | Some i \<Rightarrow> if apiKeys = [] then None else Some ((i + 1) mod length apiKeys))"

definition backoffMs :: nat where
  "backoffMs = 1000"

definition timeoutError :: "nat \<Rightarrow> nat \<Rightarrow> Error option \<Rightarrow> Error" where
  "timeoutError attemptCount totalKeys lastError =
     Error (''Gemini API requests failed after 4 minutes with '' @ showNat attemptCount
            @ '' attempts across '' @ showNat totalKeys
            @ '' API keys. All keys hit rate limits. Last error: ''
            @ (case lastError of
                 None \<Rightarrow> ''Unknown error''
               | Some e \<Rightarrow> if message e = [] then ''Unknown error'' else message e))"

text \<open>
  The \<open>while (Date.now() - startTime < maxDurationMs)\<close> loop. Its state is the time
  elapsed since \<open>startTime\<close>, \<open>currentKeyIndex\<close>, \<open>lastError\<close>, \<open>attemptCount\<close> and the
  credentials tried so far. Every turn that goes round again has slept for the backoff,
  so the loop ends.
\<close>

function retryLoop ::
  "'a requestFn \<Rightarrow> string list \<Rightarrow> nat \<Rightarrow> nat \<Rightarrow> nat option \<Rightarrow> Error option \<Rightarrow> nat
    \<Rightarrow> string option list \<Rightarrow> 'a rotation" where
  "retryLoop requestFn apiKeys maxDurationMs elapsed currentKeyIndex lastError attemptCount tried =
     (if elapsed < maxDurationMs
      then
        (case fst (requestFn (attemptCount + 1) (keyAt apiKeys currentKeyIndex)) of
           Returns result \<Rightarrow>
             \<lparr>outcome = Inr result, attempts = attemptCount + 1,
              keysTried = tried @ [keyAt apiKeys currentKeyIndex],
              elapsedMs =
                elapsed + snd (requestFn (attemptCount + 1) (keyAt apiKeys currentKeyIndex))\<rparr>
         | Throws error \<Rightarrow>
             if isRotatableError (message error)
             then retryLoop requestFn apiKeys maxDurationMs
                    (elapsed + snd (requestFn (attemptCount + 1) (keyAt apiKeys currentKeyIndex))
                     + backoffMs)
                    (nextKeyIndex apiKeys currentKeyIndex) (Some error) (attemptCount + 1)
                    (tried @ [keyAt apiKeys currentKeyIndex])
             else
               \<lparr>outcome = Inl error, attempts = attemptCount + 1,
                keysTried = tried @ [keyAt apiKeys currentKeyIndex],
                elapsedMs =
                  elapsed + snd (requestFn (attemptCount + 1) (keyAt apiKeys currentKeyIndex))\<rparr>)
      else
        \<lparr>outcome = Inl (timeoutError attemptCount (length apiKeys) lastError),
         attempts = attemptCount, keysTried = tried, elapsedMs = elapsed\<rparr>)"
  by pat_completeness auto
termination
  by (relation "measure (\<lambda>(requestFn, apiKeys, maxDurationMs, elapsed, rest). maxDurationMs - elapsed)")
     (auto simp: backoffMs_def)

declare retryLoop.simps [simp del]

definition retryWithApiKeyRotation :: "'a requestFn \<Rightarrow> string list \<Rightarrow> nat \<Rightarrow> 'a rotation" where
  "retryWithApiKeyRotation requestFn apiKeys maxDurationMs =
     retryLoop requestFn apiKeys maxDurationMs 0 (Some 0) None 0 []"

definition defaultMaxDurationMs :: nat where
  "defaultMaxDurationMs = 4 * 60 * 1000"

text \<open>
  Vocabulary for the executor's properties: the credential the rotation reaches at its
  \<open>j\<close>-th step (counted from 0), a call that fails with a rotatable error, the time
  elapsed when the first \<open>j\<close> attempts have all failed so, and a world that follows a
  script of outcomes, one per attempt, each taking \<open>d\<close> milliseconds (past the end of
  the script it throws an error with an empty message).
\<close>

definition scheduledKey :: "string list \<Rightarrow> nat \<Rightarrow> string option" where
  "scheduledKey apiKeys j = keyAt apiKeys (Some (j mod length apiKeys))"

definition rotatableFailure :: "'a response \<Rightarrow> bool" where
  "rotatableFailure r = (case r of Returns v \<Rightarrow> False | Throws e \<Rightarrow> isRotatableError (message e))"

fun timeBefore :: "'a requestFn \<Rightarrow> string list \<Rightarrow> nat \<Rightarrow> nat" where
  "timeBefore requestFn apiKeys 0 = 0"
| "timeBefore requestFn apiKeys (Suc j) =
     timeBefore requestFn apiKeys j + snd (requestFn (Suc j) (scheduledKey apiKeys j)) + backoffMs"

fun lastErrorBefore :: "'a requestFn \<Rightarrow> string list \<Rightarrow> nat \<Rightarrow> Error option" where
  "lastErrorBefore requestFn apiKeys 0 = None"
| "lastErrorBefore requestFn apiKeys (Suc j) =
     (case fst (requestFn (Suc j) (scheduledKey apiKeys j)) of
        Returns v \<Rightarrow> None
      | Throws e \<Rightarrow> Some e)"

definition scriptedRequest :: "'a response list \<Rightarrow> nat \<Rightarrow> 'a requestFn" where
  "scriptedRequest script d attempt key =
     (case drop (attempt - 1) script of
        [] \<Rightarrow> (Throws (Error []), d)
      | r # rest \<Rightarrow> (r, d))"

text \<open>The signatures of a rotatable failure in the words of the specification, whose
  last entry is shorter than the fragment the code looks for.\<close>

definition specRotatableSignatures :: "string list" where
  "specRotatableSignatures =
     [''429'', ''Too Many Requests'', ''quota'', ''rate limit'', ''API key not valid'', ''503'',
      ''Service Unavailable'', ''overloaded'', ''try again later'']"

definition specRotatable :: "string \<Rightarrow> bool" where
  "specRotatable msg \<longleftrightarrow> list_ex (includesStr msg) specRotatableSignatures"

section \<open>Limit check before a request\<close>

text \<open>
  The tail of the single-request tools (\<open>gemini_codebase_analyzer\<close> and its siblings):
  \<open>validateTokenLimit(fullContext, systemPrompt, question)\<close>, then the rotating request.
  A failed check leaves no rotation, hence no request.
\<close>

definition validateThenSend ::
  "string \<Rightarrow> string \<Rightarrow> string \<Rightarrow> 'a requestFn \<Rightarrow> string list
    \<Rightarrow> TokenLimitExceeded + 'a rotation" where
  "validateThenSend fullContext systemPrompt question requestFn apiKeys =
     (case validateTokenLimit fullContext systemPrompt question of
        Inl e \<Rightarrow> Inl e
      | Inr u \<Rightarrow> Inr (retryWithApiKeyRotation requestFn apiKeys defaultMaxDurationMs))"

section \<open>Batch analysis coordinator\<close>

text \<open>
  \<open>model.generateContent(groupPrompt)\<close> yields a result whose \<open>response.text()\<close> returns
  the text or throws. The prompt is built from the group and its index (and from values
  fixed for the run), so the world answers per group, index, attempt and credential.
\<close>

type_synonym GenerateContentResult = "Error + string"

type_synonym generateContent = "FileGroup \<Rightarrow> nat \<Rightarrow> GenerateContentResult requestFn"

definition analysisFailed :: "nat \<Rightarrow> Error \<Rightarrow> string" where
  "analysisFailed index e = ''**Group '' @ showNat (index + 1) @ '' Analysis Failed:** '' @ message e"

definition analyzeGroup :: "generateContent \<Rightarrow> string list \<Rightarrow> FileGroup \<Rightarrow> nat \<Rightarrow> string" where
  "analyzeGroup generateContent apiKeys grp index =
     (case outcome (retryWithApiKeyRotation (generateContent grp index) apiKeys
                      defaultMaxDurationMs) of
        Inl e \<Rightarrow> analysisFailed index e
      | Inr groupResult \<Rightarrow>
          (case groupResult of
             Inl e \<Rightarrow> analysisFailed index e
           | Inr groupAnalysis \<Rightarrow> groupAnalysis))"

text \<open>\<open>Promise.all(groups.map((group, index) => analyzeGroup(group, index, index * 700)))\<close>:
  the results by position. The staggered start shifts each call in time only; every
  call has its own \<open>startTime\<close>.\<close>

definition groupResults :: "generateContent \<Rightarrow> string list \<Rightarrow> FileGroup list \<Rightarrow> string list" where
  "groupResults generateContent apiKeys groups =
     map (\<lambda>(index, grp). analyzeGroup generateContent apiKeys grp index) (enumerate 0 groups)"

definition alwaysThrows :: "'a requestFn \<Rightarrow> bool" where
  "alwaysThrows requestFn \<longleftrightarrow> (\<forall>attempt key. \<exists>e. fst (requestFn attempt key) = Throws e)"

section \<open>Re-hydration of a group plan\<close>

text \<open>
  The reconstruction loop of \<open>project_orchestrator_analyze\<close>. \<open>readFile\<close> is the file
  system: the content at a relative path, or \<open>None\<close> when reading throws.
\<close>

type_synonym PlanGroup = "FileData Group"

definition readGroupFiles :: "(string \<Rightarrow> string option) \<Rightarrow> FileData list \<Rightarrow> FileTokenInfo list" where
  "readGroupFiles readFile fileDatas =
     List.map_filter
       (\<lambda>fileData.
          case readFile (filePath fileData) of
            None \<Rightarrow> None
          | Some text \<Rightarrow>
              Some \<lparr>filePath = filePath fileData, tokens = tokens fileData, content = text\<rparr>)
       fileDatas"

definition reconstructGroups :: "(string \<Rightarrow> string option) \<Rightarrow> PlanGroup list \<Rightarrow> FileGroup list" where
  "reconstructGroups readFile planGroups =
     map (\<lambda>groupData.
            \<lparr>files = readGroupFiles readFile (files groupData),
             totalTokens = totalTokens groupData,
             groupIndex = groupIndex groupData,
             name = name groupData,
             description = description groupData,
             reasoning = reasoning groupData,
             customPrompt = customPrompt groupData\<rparr>)
         planGroups"

definition analyzePlan ::
  "(string \<Rightarrow> string option) \<Rightarrow> generateContent \<Rightarrow> string list \<Rightarrow> PlanGroup list \<Rightarrow> string list" where
  "analyzePlan readFile generateContent apiKeys planGroups =
     groupResults generateContent apiKeys (reconstructGroups readFile planGroups)"

text \<open>A world whose answer depends on the index of the group only, for examples.\<close>

definition worldByIndex :: "(nat \<Rightarrow> GenerateContentResult response) \<Rightarrow> nat \<Rightarrow> generateContent" where
  "worldByIndex answer d grp index attempt key = (answer index, d)"

definition secondFails :: "nat \<Rightarrow> GenerateContentResult response" where
  "secondFails index =
     (if index = 1 then Throws (Error ''Internal error'') else Returns (Inr ''fine''))"

section \<open>Credential resolution\<close>

text \<open>
  The fields of \<open>params\<close> that \<open>resolveApiKeys\<close> reads, typed as the tool schemas type
  them; \<open>geminiApiKeys\<close> is read both as a string and as an array. \<open>numberedKey i\<close> is
  the field \<open>geminiApiKey\<close>\<open>i\<close>. \<open>None\<close> is an absent field, and the environment
  variable \<open>GEMINI_API_KEY\<close> is passed beside the parameters.
\<close>

datatype keysValue = KeysString string | KeysArray "string list"

record Params =
  geminiApiKeys :: "keysValue option"
  geminiApiKeysArray :: "string list option"
  geminiApiKey :: "string option"
  numberedKey :: "nat \<Rightarrow> string option"

text \<open>\<open>s.split(",")\<close>, and \<open>String.prototype.trim\<close> on the white space and line
  terminators among the code units modelled.\<close>

fun splitOn :: "char \<Rightarrow> string \<Rightarrow> string list" where
  "splitOn sep [] = [[]]"
| "splitOn sep (c # s) =
     (if c = sep then [] # splitOn sep s
      else (case splitOn sep s of
              [] \<Rightarrow> [[c]]
            | piece # pieces \<Rightarrow> (c # piece) # pieces))"

definition isWhiteSpace :: "char \<Rightarrow> bool" where
  "isWhiteSpace c \<longleftrightarrow>
     c \<in> set [CHR 0x09, CHR 0x0A, CHR 0x0B, CHR 0x0C, CHR 0x0D, CHR 0x20, CHR 0xA0]"

definition trim :: "string \<Rightarrow> string" where
  "trim s = rev (dropWhile isWhiteSpace (rev (dropWhile isWhiteSpace s)))"

text \<open>The two branches every string source goes through: with a comma, split, trim
  and drop the empty entries; without, the string itself is the one key.\<close>

definition splitKeys :: "string \<Rightarrow> string list" where
  "splitKeys s = filter (\<lambda>key. length key > 0) (map trim (splitOn (CHR '','') s))"

definition keysOfString :: "string \<Rightarrow> string list" where
  "keysOfString s = (if CHR '','' \<in> set s then splitKeys s else [s])"

definition numberedKeys :: "Params \<Rightarrow> string list" where
  "numberedKeys params =
     concat (map (\<lambda>i. case numberedKey params i of
                         None \<Rightarrow> []
                       | Some k \<Rightarrow> if k \<noteq> [] then [k] else [])
                 [2..<101])"

definition legacyKeys :: "Params \<Rightarrow> string list" where
  \<comment> \<open>priorities 2 and 3: \<open>geminiApiKey\<close>, then the numbered fields\<close>
  "legacyKeys params =
     (case geminiApiKey params of
        None \<Rightarrow> []
      | Some s \<Rightarrow> if s \<noteq> [] then keysOfString s else [])
     @ numberedKeys params"

definition environmentKeys :: "string option \<Rightarrow> string list" where
  "environmentKeys env =
     (case env of
        None \<Rightarrow> []
      | Some s \<Rightarrow> if s \<noteq> [] then keysOfString s else [])"

text \<open>Priority 1 and priority 1.5 return at once when they hold keys (\<open>Some\<close>); otherwise
  the keys of priorities 2 and 3 are collected and returned unless there are none, and
  priority 4 is the environment.\<close>

definition fromGeminiApiKeys :: "Params \<Rightarrow> string list option" where
  "fromGeminiApiKeys params =
     (case geminiApiKeys params of
        None \<Rightarrow> None
      | Some (KeysString s) \<Rightarrow> if s \<noteq> [] then Some (keysOfString s) else None
      | Some (KeysArray ks) \<Rightarrow> if ks \<noteq> [] then Some ks else None)"

definition fromGeminiApiKeysArray :: "Params \<Rightarrow> string list option" where
  "fromGeminiApiKeysArray params =
     (case geminiApiKeysArray params of
        None \<Rightarrow> None
      | Some ks \<Rightarrow> if ks \<noteq> [] then Some ks else None)"

definition resolveApiKeys :: "Params \<Rightarrow> string option \<Rightarrow> string list" where
  "resolveApiKeys params env =
     (case fromGeminiApiKeys params of
        Some ks \<Rightarrow> ks
      | None \<Rightarrow>
          (case fromGeminiApiKeysArray params of
             Some ks \<Rightarrow> ks
           | None \<Rightarrow>
               (let keys = legacyKeys params
                in if keys \<noteq> [] then keys else environmentKeys env)))"

text \<open>What the specification says of a string source, for every string: split at the
  commas, each entry trimmed, empty entries dropped.\<close>

definition specKeysOfString :: "string \<Rightarrow> string list" where
  "specKeysOfString s = filter (\<lambda>key. key \<noteq> []) (map trim (splitOn (CHR '','') s))"

text \<open>A source yields no key.\<close>

definition yieldsNoKey :: "Params \<Rightarrow> string option \<Rightarrow> bool" where
  "yieldsNoKey params env \<longleftrightarrow>
     (case geminiApiKeys params of
        None \<Rightarrow> True
      | Some (KeysString s) \<Rightarrow> s = [] \<or> keysOfString s = []
      | Some (KeysArray ks) \<Rightarrow> ks = [])
     \<and> (geminiApiKeysArray params = None \<or> geminiApiKeysArray params = Some [])
     \<and> legacyKeys params = []
     \<and> environmentKeys env = []"

section \<open>The assisted grouping strategy\<close>

text \<open>
  What the first half of the \<open>try\<close> block of \<open>createFileGroupsWithAI\<close> comes to: the
  rotating request with \<open>response.text()\<close> throws, or the two regular expressions find
  no JSON in the answer, or \<open>JSON.parse\<close> throws, or there is a parsed value.
\<close>

datatype aiResponse =
    CallThrows Error
  | NoJsonMatch
  | ParseThrows
  | Parsed json

datatype groupingError = CallFailed Error | NoValidJson | SyntaxError | TypeError

text \<open>
  Reading a property and iterating with \<open>for \<dots> of\<close>. A property of \<open>null\<close> throws a
  \<open>TypeError\<close>; an object has the properties listed; the other values have none of the
  names read here. Arrays iterate over their elements and strings over their code
  units; anything else, \<open>undefined\<close> included, is not iterable.
\<close>

definition getProp :: "json \<Rightarrow> string \<Rightarrow> groupingError + json option" where
  "getProp v key =
     (case v of
        JNull \<Rightarrow> Inl TypeError
      | JObj props \<Rightarrow> Inr (map_of props key)
      | _ \<Rightarrow> Inr None)"

definition forOf :: "json option \<Rightarrow> groupingError + json list" where
  "forOf v =
     (case v of
        Some (JArr xs) \<Rightarrow> Inr xs
      | Some (JStr s) \<Rightarrow> Inr (map (\<lambda>c. JStr [c]) s)
      | _ \<Rightarrow> Inl TypeError)"

definition propOrUndefined :: "json \<Rightarrow> string \<Rightarrow> json option" where
  "propOrUndefined v key = (case getProp v key of Inl e \<Rightarrow> None | Inr p \<Rightarrow> p)"

text \<open>The inner loop: \<open>files.find((f) => f.filePath === filePath)\<close> for each listed
  path, keeping the files found; \<open>totalTokens += fileInfo.tokens\<close> adds their costs
  from \<open>0\<close> in this order, as doubles (the \<open>foldl\<close> in the loop below).\<close>

definition findFile :: "FileTokenInfo list \<Rightarrow> json \<Rightarrow> FileTokenInfo option" where
  "findFile fs p = find (\<lambda>f. JStr (filePath f) = p) fs"

definition resolveFiles :: "FileTokenInfo list \<Rightarrow> json list \<Rightarrow> FileTokenInfo list" where
  "resolveFiles fs paths = List.map_filter (findFile fs) paths"

text \<open>The loop \<open>for (const aiGroup of groupingData.groups)\<close>, with \<open>aiGroups\<close> and
  \<open>groupIndex\<close> as its state.\<close>

fun aiGroupLoop ::
  "FileTokenInfo list \<Rightarrow> int \<Rightarrow> json list \<Rightarrow> FileGroup list \<Rightarrow> nat
    \<Rightarrow> groupingError + FileGroup list \<times> nat" where
  "aiGroupLoop fs maxTokensPerGroup [] aiGroups idx = Inr (aiGroups, idx)"
| "aiGroupLoop fs maxTokensPerGroup (aiGroup # rest) aiGroups idx =
     (case getProp aiGroup ''files'' of
        Inl e \<Rightarrow> Inl e
      | Inr listed \<Rightarrow>
          (case forOf listed of
             Inl e \<Rightarrow> Inl e
           | Inr paths \<Rightarrow>
               (let groupFiles = resolveFiles fs paths;
                    total = foldl numberPlus 0 (map tokens groupFiles)
                in if total > maxTokensPerGroup
                   then (let splitGroups =
                               createFileGroupsAlgorithmic groupFiles maxTokensPerGroup idx
                         in aiGroupLoop fs maxTokensPerGroup rest (aiGroups @ splitGroups)
                              (idx + length splitGroups))
                   else aiGroupLoop fs maxTokensPerGroup rest
                          (aiGroups @
                           [\<lparr>files = groupFiles, totalTokens = total, groupIndex = idx,
                             name = propOrUndefined aiGroup ''name'',
                             description = propOrUndefined aiGroup ''description'',
                             reasoning = propOrUndefined aiGroup ''reasoning'',
                             customPrompt = propOrUndefined aiGroup ''customPrompt''\<rparr>])
                          (idx + 1))))"

text \<open>The \<open>try\<close> block, and the function with its \<open>catch\<close>.\<close>

definition aiGrouping :: "FileTokenInfo list \<Rightarrow> int \<Rightarrow> aiResponse \<Rightarrow> groupingError + FileGroup list" where
  "aiGrouping fs maxTokensPerGroup response =
     (case response of
        CallThrows e \<Rightarrow> Inl (CallFailed e)
      | NoJsonMatch \<Rightarrow> Inl NoValidJson
      | ParseThrows \<Rightarrow> Inl SyntaxError
      | Parsed groupingData \<Rightarrow>
          (case getProp groupingData ''groups'' of
             Inl e \<Rightarrow> Inl e
           | Inr proposed \<Rightarrow>
               (case forOf proposed of
                  Inl e \<Rightarrow> Inl e
                | Inr proposedGroups \<Rightarrow>
                    (case aiGroupLoop fs maxTokensPerGroup proposedGroups [] 0 of
                       Inl e \<Rightarrow> Inl e
                     | Inr (aiGroups, idx) \<Rightarrow>
                         (let includedFiles = set (map filePath (allFiles aiGroups));
                              remainingFiles = filter (\<lambda>f. filePath f \<notin> includedFiles) fs
                          in if remainingFiles \<noteq> []
                             then Inr (aiGroups @
                                       createFileGroupsAlgorithmic remainingFiles
                                         maxTokensPerGroup idx)
                             else Inr aiGroups)))))"

definition createFileGroupsWithAI :: "FileTokenInfo list \<Rightarrow> int \<Rightarrow> aiResponse \<Rightarrow> FileGroup list" where
  "createFileGroupsWithAI fs maxTokensPerGroup response =
     (case aiGrouping fs maxTokensPerGroup response of
        Inr aiGroups \<Rightarrow> aiGroups
      | Inl e \<Rightarrow> createFileGroupsAlgorithmic fs maxTokensPerGroup 0)"

text \<open>The paths a proposal lists, over all its groups in order, and those of them that
  name a file of the manifest.\<close>

definition groupPaths :: "json \<Rightarrow> json list" where
  "groupPaths aiGroup =
     (case forOf (propOrUndefined aiGroup ''files'') of Inl e \<Rightarrow> [] | Inr paths \<Rightarrow> paths)"

definition listedPaths :: "json \<Rightarrow> json list" where
  "listedPaths groupingData =
     (case forOf (propOrUndefined groupingData ''groups'') of
        Inl e \<Rightarrow> []
      | Inr proposedGroups \<Rightarrow> concat (map groupPaths proposedGroups))"

definition listedManifestPaths :: "FileTokenInfo list \<Rightarrow> json \<Rightarrow> json list" where
  "listedManifestPaths fs groupingData =
     filter (\<lambda>p. p \<in> set (map (JStr \<circ> filePath) fs)) (listedPaths groupingData)"

section \<open>Example inputs\<close>

text \<open>Parameters that hold nothing but the string \<open>geminiApiKeys\<close>.\<close>

definition noNumberedKeys :: "nat \<Rightarrow> string option" where
  "noNumberedKeys i = None"

definition onlyGeminiApiKeys :: "string \<Rightarrow> Params" where
  "onlyGeminiApiKeys s =
     \<lparr>geminiApiKeys = Some (KeysString s), geminiApiKeysArray = None, geminiApiKey = None,
      numberedKey = noNumberedKeys\<rparr>"

text \<open>A manifest of one file and a proposal that lists this file in two groups.\<close>

definition oneFile :: FileTokenInfo where
  "oneFile = \<lparr>filePath = ''a.ts'', tokens = 10, content = ''x''\<rparr>"

definition listedTwice :: json where
  "listedTwice =
     JObj [(''groups'',
            JArr [JObj [(''name'', JStr ''first''), (''files'', JArr [JStr ''a.ts''])],
                  JObj [(''name'', JStr ''second''), (''files'', JArr [JStr ''a.ts''])]])]"

text \<open>A manifest of three files, a proposal that lists two of them once each beside a
  path the manifest does not have, and a parsed answer of the wrong shape.\<close>

definition threeFiles :: "FileTokenInfo list" where
  "threeFiles =
     [\<lparr>filePath = ''a.ts'', tokens = 10, content = ''x''\<rparr>,
      \<lparr>filePath = ''b.ts'', tokens = 20, content = ''y''\<rparr>,
      \<lparr>filePath = ''c.ts'', tokens = 30, content = ''z''\<rparr>]"

definition partialProposal :: json where
  "partialProposal =
     JObj [(''groups'',
            JArr [JObj [(''files'', JArr [JStr ''a.ts'', JStr ''gone.ts''])],
                  JObj [(''files'', JArr [JStr ''b.ts''])]])]"

definition wrongShape :: json where
  "wrongShape = JObj [(''groups'', JNull)]"

text \<open>Five files of 200,000 tokens each; three credentials and a world in which the first
  two attempts fail with rotatable errors and the third succeeds.\<close>

definition fiveFiles :: "FileTokenInfo list" where
  "fiveFiles =
     [\<lparr>filePath = ''f1'', tokens = 200000, content = ''''\<rparr>,
      \<lparr>filePath = ''f2'', tokens = 200000, content = ''''\<rparr>,
      \<lparr>filePath = ''f3'', tokens = 200000, content = ''''\<rparr>,
      \<lparr>filePath = ''f4'', tokens = 200000, content = ''''\<rparr>,
      \<lparr>filePath = ''f5'', tokens = 200000, content = ''''\<rparr>]"

definition threeKeys :: "string list" where
  "threeKeys = [''k1'', ''k2'', ''k3'']"

definition thirdSucceeds :: "string requestFn" where
  "thirdSucceeds =
     scriptedRequest
       [Throws (Error ''429 Too Many Requests''),
        Throws (Error ''The model is overloaded. Please try again later.''),
        Returns ''ok'']
       200"

text \<open>Three groups, and a world in which the first group is answered at once, every
  request for the second fails with an error that is not rotatable, and the third is
  answered after one rotatable failure; every attempt takes 300 milliseconds.\<close>

definition threeGroups :: "FileGroup list" where
  "threeGroups = [plainGroup [] 0 0, plainGroup [] 0 1, plainGroup [] 0 2]"

definition thirdRetries :: generateContent where
  "thirdRetries grp index attempt key =
     (if index = 1 then (Throws (Error ''Internal error''), 300)
      else if index = 2 \<and> attempt = 1 then (Throws (Error ''503 Service Unavailable''), 300)
      else if index = 2 then (Returns (Inr ''third analysis''), 300)
      else (Returns (Inr ''first analysis''), 300))"

text \<open>A file of \<open>2 ^ 53\<close> tokens and a file of one token.\<close>

definition roundedFiles :: "FileTokenInfo list" where
  "roundedFiles =
     [\<lparr>filePath = ''big'', tokens = 9007199254740992, content = ''''\<rparr>,
      \<lparr>filePath = ''one'', tokens = 1, content = ''''\<rparr>]"

text \<open>A list that holds two files under one path, which no scan of a directory
  produces.\<close>

definition samePathTwice :: "FileTokenInfo list" where
  "samePathTwice =
     [\<lparr>filePath = ''a.ts'', tokens = 10, content = ''x''\<rparr>,
      \<lparr>filePath = ''a.ts'', tokens = 20, content = ''y''\<rparr>]"

section \<open>Properties of the rounding\<close>

lemma bitLength_0 [simp]: "bitLength 0 = 0"
  by (simp add: bitLength.simps)

lemma bitLength_pos: "0 < n \<Longrightarrow> bitLength n = Suc (bitLength (n div 2))"
  by (subst bitLength.simps) simp

lemma bitLength_bounds:
  "0 < n \<Longrightarrow> 2 ^ (bitLength n - 1) \<le> n \<and> n < 2 ^ bitLength n"
proof (induction n rule: bitLength.induct)
  case (1 n)
  show ?case
  proof (cases "n div 2 = 0")
    case True
    with "1.prems" have "n = 1" by (simp add: div_eq_0_iff) 
    then show ?thesis by (simp add: bitLength_pos)
  next
    case False
    then have pos: "0 < n div 2" by simp
    from "1.IH" [OF _ pos] "1.prems"
    have ih: "2 ^ (bitLength (n div 2) - 1) \<le> n div 2" "n div 2 < 2 ^ bitLength (n div 2)"
      by simp_all
    have bl: "bitLength n = Suc (bitLength (n div 2))" using "1.prems" by (rule bitLength_pos)
    have "0 < bitLength (n div 2)" using pos by (simp add: bitLength_pos)
    then obtain k where k: "bitLength (n div 2) = Suc k" by (cases "bitLength (n div 2)") auto
    from ih k have "2 * 2 ^ k \<le> n" "n < 2 * 2 ^ Suc k" by simp_all
    then show ?thesis by (simp add: bl k)
  qed
qed

lemma bitLength_mono: "m \<le> n \<Longrightarrow> bitLength m \<le> bitLength n"
proof (induction n arbitrary: m rule: bitLength.induct)
  case (1 n)
  show ?case
  proof (cases "m = 0")
    case True
    then show ?thesis by simp
  next
    case False
    with "1.prems" have n: "0 < n" and m: "0 < m" by simp_all
    have "m div 2 \<le> n div 2" using "1.prems" by (rule div_le_mono)
    from "1.IH" [OF _ this] n have "bitLength (m div 2) \<le> bitLength (n div 2)" by simp
    then show ?thesis by (simp add: bitLength_pos n m)
  qed
qed

lemma roundAt_lower: "(N div 2 ^ sh) * 2 ^ sh \<le> roundAt sh N"
  by (simp add: roundAt_def Let_def)

lemma roundAt_upper: "roundAt sh N \<le> (N div 2 ^ sh + 1) * 2 ^ sh"
  by (simp add: roundAt_def Let_def)

lemma roundAt_mono:
  assumes "M \<le> N"
  shows "roundAt sh M \<le> roundAt sh N"
proof (cases "M div 2 ^ sh = N div 2 ^ sh")
  case True
  have "M mod 2 ^ sh \<le> N mod 2 ^ sh"
    using assms True by (metis add_le_cancel_left div_mult_mod_eq mult.commute)
  then show ?thesis
    unfolding roundAt_def Let_def True by auto
next
  case False
  have "M div 2 ^ sh \<le> N div 2 ^ sh" using assms by (rule div_le_mono)
  with False have "M div 2 ^ sh + 1 \<le> N div 2 ^ sh" by simp
  then have "(M div 2 ^ sh + 1) * 2 ^ sh \<le> (N div 2 ^ sh) * 2 ^ sh"
    by (rule mult_le_mono1)
  with roundAt_upper [of sh M] roundAt_lower [of N sh] show ?thesis by linarith
qed

lemma round53_small: "bitLength N \<le> 53 \<Longrightarrow> round53 N = N"
  by (simp add: round53_def roundAt_def)

lemma roundAt_bitLength_bounds:
  assumes "0 < N" "0 < p"
  shows "2 ^ (bitLength N - 1) \<le> roundAt (bitLength N - p) N
         \<and> roundAt (bitLength N - p) N \<le> 2 ^ bitLength N"
proof (cases "bitLength N \<le> p")
  case True
  then have "roundAt (bitLength N - p) N = N" by (simp add: roundAt_def)
  with bitLength_bounds [OF assms(1)] show ?thesis by simp
next
  case False
  define sh where "sh = bitLength N - p"
  obtain p' where p': "p = Suc p'" using assms(2) by (cases p) auto
  have bl: "bitLength N = p + sh" using False by (simp add: sh_def)
  from bitLength_bounds [OF assms(1)] have "2 ^ (p' + sh) \<le> N" and "N < 2 ^ (p + sh)"
    by (simp_all add: bl p')
  then have lo: "2 ^ p' * 2 ^ sh \<le> N" and hi: "N < 2 ^ p * 2 ^ sh"
    by (simp_all only: power_add)
  from lo have q_lo: "2 ^ p' \<le> N div 2 ^ sh"
    by (simp add: less_eq_div_iff_mult_less_eq)
  from hi have q_hi: "N div 2 ^ sh < 2 ^ p"
    by (simp add: less_mult_imp_div_less)
  have "2 ^ p' * 2 ^ sh \<le> (N div 2 ^ sh) * 2 ^ sh" using q_lo by (rule mult_le_mono1)
  with roundAt_lower [of N sh] have "2 ^ p' * 2 ^ sh \<le> roundAt sh N" by (rule le_trans [rotated])
  then have a: "2 ^ (bitLength N - 1) \<le> roundAt sh N"
    by (simp only: bl p' power_add [symmetric] add_Suc diff_Suc_1)
  have "N div 2 ^ sh + 1 \<le> 2 ^ p" using q_hi by simp
  then have "(N div 2 ^ sh + 1) * 2 ^ sh \<le> 2 ^ p * 2 ^ sh" by (rule mult_le_mono1)
  with roundAt_upper [of sh N] have "roundAt sh N \<le> 2 ^ p * 2 ^ sh" by (rule le_trans)
  then have b: "roundAt sh N \<le> 2 ^ bitLength N"
    by (simp only: bl power_add)
  from a b show ?thesis by (simp only: sh_def [symmetric]) 
qed

lemma round53_bounds:
  "0 < N \<Longrightarrow> 2 ^ (bitLength N - 1) \<le> round53 N \<and> round53 N \<le> 2 ^ bitLength N"
  unfolding round53_def by (rule roundAt_bitLength_bounds) simp_all

lemma round53_mono:
  assumes "M \<le> N"
  shows "round53 M \<le> round53 N"
proof (cases "M = 0")
  case True
  then show ?thesis by (simp add: round53_def roundAt_def)
next
  case False
  with assms have M: "0 < M" and N: "0 < N" by simp_all
  show ?thesis
  proof (cases "bitLength M = bitLength N")
    case True
    then show ?thesis using roundAt_mono [OF assms] by (simp add: round53_def)
  next
    case False
    with bitLength_mono [OF assms] have "bitLength M \<le> bitLength N - 1" by simp
    then have "(2::nat) ^ bitLength M \<le> 2 ^ (bitLength N - 1)"
      by (rule power_increasing) simp
    with round53_bounds [OF M] round53_bounds [OF N] show ?thesis by linarith
  qed
qed

lemma bitLength_numeral_simps:
  "bitLength (Suc 0) = 1"
  "bitLength 1 = 1"
  "bitLength (numeral Num.One) = 1"
  "bitLength (numeral (Num.Bit0 k)) = bitLength (numeral k) + 1"
  "bitLength (numeral (Num.Bit1 k)) = bitLength (numeral k) + 1"
proof -
  show "bitLength (Suc 0) = 1" by (simp add: bitLength_pos)
  then show "bitLength 1 = 1" "bitLength (numeral Num.One) = 1" by simp_all
  show "bitLength (numeral (Num.Bit0 k)) = bitLength (numeral k) + 1"
    by (subst bitLength_pos) simp_all
  show "bitLength (numeral (Num.Bit1 k)) = bitLength (numeral k) + 1"
    by (subst bitLength_pos) simp_all
qed

lemma bitLength_le: "n < 2 ^ k \<Longrightarrow> bitLength n \<le> k"
proof (rule ccontr)
  assume n: "n < 2 ^ k" and "\<not> bitLength n \<le> k"
  then have k: "k \<le> bitLength n - 1" and pos: "0 < n"
    by (auto intro: gr0I)
  from k have "(2::nat) ^ k \<le> 2 ^ (bitLength n - 1)"
    by (rule power_increasing) simp
  also have "\<dots> \<le> n" using bitLength_bounds [OF pos] by (rule conjunct1)
  finally show False using n by simp
qed

lemma round53_exact: "n < 2 ^ 53 \<Longrightarrow> round53 n = n"
  by (rule round53_small) (rule bitLength_le)

lemma numberPlus_exact:
  "0 \<le> a \<Longrightarrow> 0 \<le> b \<Longrightarrow> a + b < 2 ^ 53 \<Longrightarrow> numberPlus a b = a + b"
proof -
  assume h: "0 \<le> a" "0 \<le> b" "a + b < 2 ^ 53"
  then have "nat (a + b) < 2 ^ 53" by (simp add: nat_less_iff)
  then have "round53 (nat (a + b)) = nat (a + b)" by (rule round53_exact)
  with h show ?thesis by (simp add: numberPlus_def Let_def)
qed

lemma sum_list_map_nonneg:
  "\<forall>x\<in>set xs. 0 \<le> f x \<Longrightarrow> 0 \<le> sum_list (map f xs)"
  for f :: "'a \<Rightarrow> int"
  by (induction xs) simp_all

lemma foldl_numberPlus_exact:
  "\<forall>x\<in>set xs. 0 \<le> x \<Longrightarrow> 0 \<le> a \<Longrightarrow> a + sum_list xs < 2 ^ 53
    \<Longrightarrow> foldl numberPlus a xs = a + sum_list xs"
proof (induction xs arbitrary: a)
  case Nil
  then show ?case by simp
next
  case (Cons x xs)
  have nn: "0 \<le> sum_list xs" using Cons.prems(1) by (simp add: sum_list_nonneg)
  have x: "0 \<le> x" using Cons.prems(1) by simp
  have "numberPlus a x = a + x"
    using Cons.prems(2,3) x nn by (intro numberPlus_exact) simp_all
  moreover have "foldl numberPlus (a + x) xs = a + x + sum_list xs"
    using Cons.prems x by (intro Cons.IH) simp_all
  ultimately show ?case by simp
qed

section \<open>Properties of the deterministic strategy\<close>

lemma allFiles_simps [simp]:
  "allFiles [] = []"
  "allFiles (g # gs) = files g @ allFiles gs"
  "allFiles (gs @ hs) = allFiles gs @ allFiles hs"
  by (simp_all add: allFiles_def)

lemma plainGroup_sel [simp]:
  "files (plainGroup fs t i) = fs"
  "totalTokens (plainGroup fs t i) = t"
  "groupIndex (plainGroup fs t i) = i"
  by (simp_all add: plainGroup_def)

lemma groupLoop_mset:
  "mset (allFiles (groupLoop m fs gs cg ct i)) = mset (allFiles gs) + mset cg + mset fs"
  by (induction fs arbitrary: gs cg ct i) simp_all

lemma groupLoop_totalOk:
  "\<forall>g\<in>set gs. totalOk g \<Longrightarrow> ct = sum_list (map tokens cg)
    \<Longrightarrow> \<forall>f\<in>set (cg @ fs). 0 \<le> tokens f
    \<Longrightarrow> sum_list (map tokens (cg @ fs)) < 2 ^ 53
    \<Longrightarrow> \<forall>g\<in>set (groupLoop m fs gs cg ct i). totalOk g"
proof (induction fs arbitrary: gs cg ct i)
  case Nil
  then show ?case by (simp add: totalOk_def)
next
  case (Cons f fs)
  have nn: "0 \<le> sum_list (map tokens cg)" "0 \<le> sum_list (map tokens fs)" "0 \<le> tokens f"
    using Cons.prems(3) by (simp_all add: sum_list_map_nonneg)
  have plus: "numberPlus ct (tokens f) = ct + tokens f"
    using Cons.prems(2,4) nn by (intro numberPlus_exact) simp_all
  have single: "\<forall>g\<in>set (gs @ [plainGroup [f] (tokens f) i]). totalOk g"
    using Cons.prems(1) by (simp add: totalOk_def)
  have closed: "\<forall>g\<in>set (gs @ [plainGroup cg ct i]). totalOk g"
    using Cons.prems(1,2) by (simp add: totalOk_def)
  have grown: "ct + tokens f = sum_list (map tokens (cg @ [f]))"
    using Cons.prems(2) by simp
  have a: "\<forall>g\<in>set (groupLoop m fs (gs @ [plainGroup [f] (tokens f) i]) cg ct (i + 1)). totalOk g"
    using Cons.prems(3,4) nn by (intro Cons.IH [OF single Cons.prems(2)]) simp_all
  have b: "\<forall>g\<in>set (groupLoop m fs (gs @ [plainGroup cg ct i]) [f] (tokens f) (i + 1)). totalOk g"
    using Cons.prems(3,4) nn by (intro Cons.IH [OF closed]) simp_all
  have c: "\<forall>g\<in>set (groupLoop m fs gs (cg @ [f]) (ct + tokens f) i). totalOk g"
    using Cons.prems(3,4) by (intro Cons.IH [OF Cons.prems(1) grown]) simp_all
  show ?case using a b c by (simp add: plus)
qed

lemma groupLoop_withinCeiling:
  "\<forall>g\<in>set gs. withinCeiling m g \<Longrightarrow> (cg \<noteq> [] \<longrightarrow> ct \<le> m) \<Longrightarrow> (cg = [] \<longrightarrow> ct = 0)
    \<Longrightarrow> \<forall>f\<in>set fs. 0 \<le> tokens f \<and> tokens f < 2 ^ 53
    \<Longrightarrow> \<forall>g\<in>set (groupLoop m fs gs cg ct i). withinCeiling m g"
proof (induction fs arbitrary: gs cg ct i)
  case Nil
  then show ?case by (simp add: withinCeiling_def)
next
  case (Cons f fs)
  have rest: "\<forall>f\<in>set fs. 0 \<le> tokens f \<and> tokens f < 2 ^ 53" using Cons.prems(4) by simp
  have first: "numberPlus 0 (tokens f) = tokens f"
    using Cons.prems(4) numberPlus_exact [of 0 "tokens f"] by simp
  show ?case
  proof (cases "tokens f > m")
    case True
    have "\<forall>g\<in>set (gs @ [plainGroup [f] (tokens f) i]). withinCeiling m g"
      using Cons.prems(1) True by (simp add: withinCeiling_def)
    from Cons.IH [OF this Cons.prems(2) Cons.prems(3) rest] True show ?thesis by simp
  next
    case False
    show ?thesis
    proof (cases "numberPlus ct (tokens f) > m \<and> cg \<noteq> []")
      case True
      have a: "\<forall>g\<in>set (gs @ [plainGroup cg ct i]). withinCeiling m g"
        using Cons.prems(1,2) True by (simp add: withinCeiling_def)
      have "\<forall>g\<in>set (groupLoop m fs (gs @ [plainGroup cg ct i]) [f] (tokens f) (i + 1)).
              withinCeiling m g"
        using False rest by (intro Cons.IH [OF a]) simp_all
      with True False show ?thesis by simp
    next
      case no_close: False
      have "numberPlus ct (tokens f) \<le> m"
        using False no_close Cons.prems(3) first by (cases "cg = []") auto
      then have "\<forall>g\<in>set (groupLoop m fs gs (cg @ [f]) (numberPlus ct (tokens f)) i).
              withinCeiling m g"
        using rest by (intro Cons.IH [OF Cons.prems(1)]) simp_all
      with no_close False show ?thesis by auto
    qed
  qed
qed

lemma sum_list_map_mset_cong:
  "mset xs = mset ys \<Longrightarrow> sum_list (map f xs) = sum_list (map f ys)"
  for f :: "'a \<Rightarrow> int"
  by (metis sum_mset_sum_list mset_map)

lemma totalOk_sum:
  "\<forall>g\<in>set gs. totalOk g
    \<Longrightarrow> sum_list (map totalTokens gs) = sum_list (map tokens (allFiles gs))"
  by (induction gs) (simp_all add: totalOk_def)

lemma concat_disjoint_index:
  "distinct (concat xss) \<Longrightarrow> i < j \<Longrightarrow> j < length xss
    \<Longrightarrow> set (xss ! i) \<inter> set (xss ! j) = {}"
proof (induction xss arbitrary: i j)
  case Nil
  then show ?case by simp
next
  case (Cons xs xss)
  from Cons.prems(2) obtain j' where j: "j = Suc j'" by (cases j) auto
  show ?case
  proof (cases i)
    case 0
    have "xss ! j' \<in> set xss" using Cons.prems(3) j by simp
    then show ?thesis using Cons.prems(1) 0 j by auto
  next
    case (Suc i')
    then show ?thesis using Cons.IH [of i' j'] Cons.prems j by simp
  qed
qed

lemma concat_unique_index:
  assumes "distinct (concat xss)" "i < length xss" "j < length xss"
    "x \<in> set (xss ! i)" "x \<in> set (xss ! j)"
  shows "i = j"
proof (rule ccontr)
  assume "i \<noteq> j"
  then consider "i < j" | "j < i" by linarith
  then show False
    using concat_disjoint_index [OF assms(1), of i j] concat_disjoint_index [OF assms(1), of j i]
      assms(2-5) by cases auto
qed

lemma in_concat_index:
  "x \<in> set (concat xss) \<Longrightarrow> \<exists>i<length xss. x \<in> set (xss ! i)"
proof (induction xss)
  case Nil
  then show ?case by simp
next
  case (Cons xs xss)
  show ?case
  proof (cases "x \<in> set xs")
    case True
    then show ?thesis by (intro exI [of _ 0]) simp
  next
    case False
    with Cons obtain i where "i < length xss" "x \<in> set (xss ! i)" by auto
    then show ?thesis by (intro exI [of _ "Suc i"]) simp
  qed
qed

lemma distinct_allFiles_exactly_one:
  assumes "distinct (allFiles gs)" "f \<in> set (allFiles gs)"
  shows "inExactlyOneGroup gs f"
proof -
  from assms(2) obtain i where i: "i < length gs" "f \<in> set (files (gs ! i))"
    using in_concat_index [of f "map files gs"] by (auto simp: allFiles_def)
  have "j = i" if "j < length gs" "f \<in> set (files (gs ! j))" for j
    using concat_unique_index [of "map files gs" j i f] assms(1) i that
    by (simp add: allFiles_def)
  with i show ?thesis unfolding inExactlyOneGroup_def by blast
qed


lemma algorithmic_mset:
  "mset (allFiles (createFileGroupsAlgorithmic fs m s)) = mset fs"
  by (simp add: createFileGroupsAlgorithmic_def groupLoop_mset)

lemma algorithmic_totalOk:
  assumes "\<forall>f\<in>set fs. 0 \<le> tokens f" "sum_list (map tokens fs) < 2 ^ 53"
  shows "\<forall>g\<in>set (createFileGroupsAlgorithmic fs m s). totalOk g"
proof -
  have "sum_list (map tokens (sort_key tokens fs)) = sum_list (map tokens fs)"
    by (rule sum_list_map_mset_cong) simp
  with assms show ?thesis
    unfolding createFileGroupsAlgorithmic_def by (intro groupLoop_totalOk) simp_all
qed

lemma sum_list_member_le:
  "\<forall>x\<in>set xs. 0 \<le> f x \<Longrightarrow> y \<in> set xs \<Longrightarrow> f y \<le> sum_list (map f xs)"
  for f :: "'a \<Rightarrow> int"
  by (induction xs) (auto simp: sum_list_map_nonneg intro: add_increasing add_increasing2)

lemma algorithmic_withinCeiling:
  assumes "\<forall>f\<in>set fs. 0 \<le> tokens f" "sum_list (map tokens fs) < 2 ^ 53"
  shows "\<forall>g\<in>set (createFileGroupsAlgorithmic fs m s). withinCeiling m g"
proof -
  have "\<forall>f\<in>set fs. 0 \<le> tokens f \<and> tokens f < 2 ^ 53"
  proof
    fix f assume f: "f \<in> set fs"
    from sum_list_member_le [OF assms(1) f] assms(2) have "tokens f < 2 ^ 53" by simp
    with assms(1) f show "0 \<le> tokens f \<and> tokens f < 2 ^ 53" by simp
  qed
  then show ?thesis
    unfolding createFileGroupsAlgorithmic_def by (intro groupLoop_withinCeiling) simp_all
qed


text \<open>
  Claim C1. For every manifest and every ceiling, the groups returned by
  \<open>createFileGroupsAlgorithmic\<close> hold exactly the entries of the manifest, each once (as
  multisets; when the manifest has no repeated entry, every file lies in exactly one
  group). When the token costs are non-negative and their total is below \<open>2 ^ 53\<close>, the
  range in which their additions are exact, the \<open>totalTokens\<close> of the groups add up to
  the token costs of the files, and every group is within the ceiling unless it is a
  single file that is itself above it.
\<close>

theorem createFileGroupsAlgorithmic_partition:
  "mset (allFiles (createFileGroupsAlgorithmic fs m s)) = mset fs
   \<and> (distinct fs \<longrightarrow>
        (\<forall>f\<in>set fs. inExactlyOneGroup (createFileGroupsAlgorithmic fs m s) f))
   \<and> ((\<forall>f\<in>set fs. 0 \<le> tokens f) \<and> sum_list (map tokens fs) < 2 ^ 53 \<longrightarrow>
        sum_list (map totalTokens (createFileGroupsAlgorithmic fs m s))
          = sum_list (map tokens fs)
        \<and> (\<forall>g\<in>set (createFileGroupsAlgorithmic fs m s). withinCeiling m g))"
proof -
  let ?gs = "createFileGroupsAlgorithmic fs m s"
  note ms = algorithmic_mset [of fs m s]
  have one: "inExactlyOneGroup ?gs f" if "distinct fs" "f \<in> set fs" for f
  proof (rule distinct_allFiles_exactly_one)
    show "distinct (allFiles ?gs)" using mset_eq_imp_distinct_iff [OF ms] that(1) by simp
    show "f \<in> set (allFiles ?gs)" using mset_eq_setD [OF ms] that(2) by simp
  qed
  have costs: "sum_list (map totalTokens ?gs) = sum_list (map tokens fs)
      \<and> (\<forall>g\<in>set ?gs. withinCeiling m g)"
    if nn: "\<forall>f\<in>set fs. 0 \<le> tokens f" and bound: "sum_list (map tokens fs) < 2 ^ 53"
  proof
    show "sum_list (map totalTokens ?gs) = sum_list (map tokens fs)"
      using totalOk_sum [OF algorithmic_totalOk [OF nn bound]]
        sum_list_map_mset_cong [OF ms, of tokens]
      by simp
    show "\<forall>g\<in>set ?gs. withinCeiling m g"
      using nn bound by (rule algorithmic_withinCeiling)
  qed
  from ms one costs show ?thesis by blast
qed

theorem createFileGroupsAlgorithmic_partition_witness:
  "distinct threeFiles
   \<and> list_all (\<lambda>f. 0 \<le> tokens f) threeFiles
   \<and> sum_list (map tokens threeFiles) = 60
   \<and> sum_list (map tokens threeFiles) < 2 ^ 53
   \<and> map (map filePath \<circ> files) (createFileGroupsAlgorithmic threeFiles 25 0)
       = [[''a.ts''], [''c.ts''], [''b.ts'']]
   \<and> map totalTokens (createFileGroupsAlgorithmic threeFiles 25 0) = [10, 30, 20]
   \<and> mset (allFiles (createFileGroupsAlgorithmic threeFiles 25 0)) = mset threeFiles
   \<and> sum_list (map totalTokens (createFileGroupsAlgorithmic threeFiles 25 0)) = 60
   \<and> list_all (withinCeiling 25) (createFileGroupsAlgorithmic threeFiles 25 0)
   \<and> inExactlyOneGroup (createFileGroupsAlgorithmic threeFiles 25 0) (threeFiles ! 0)
   \<and> inExactlyOneGroup (createFileGroupsAlgorithmic threeFiles 25 0) (threeFiles ! 1)
   \<and> inExactlyOneGroup (createFileGroupsAlgorithmic threeFiles 25 0) (threeFiles ! 2)"
proof -
  have d: "distinct threeFiles" by (simp add: threeFiles_def)
  have n: "\<forall>f\<in>set threeFiles. 0 \<le> tokens f" by (simp add: threeFiles_def)
  have s: "sum_list (map tokens threeFiles) = 60" by (simp add: threeFiles_def)
  have v: "map (map filePath \<circ> files) (createFileGroupsAlgorithmic threeFiles 25 0)
       = [[''a.ts''], [''c.ts''], [''b.ts'']]"
    "map totalTokens (createFileGroupsAlgorithmic threeFiles 25 0) = [10, 30, 20]"
    by (simp_all add: threeFiles_def createFileGroupsAlgorithmic_def numberPlus_exact)
  have m: "threeFiles ! 0 \<in> set threeFiles" "threeFiles ! 1 \<in> set threeFiles"
    "threeFiles ! 2 \<in> set threeFiles"
    by (simp_all add: threeFiles_def)
  from createFileGroupsAlgorithmic_partition [of threeFiles 25 0] d n s v m
  show ?thesis by (simp add: list_all_iff)
qed

text \<open>
  Why the costs are bounded: from \<open>2 ^ 53\<close> on the sum of two doubles is rounded. A file
  of \<open>2 ^ 53\<close> tokens and a file of one token, with the ceiling \<open>2 ^ 53\<close>, end in one
  group whose \<open>totalTokens\<close> is \<open>2 ^ 53\<close>, one less than the costs of its files.
\<close>

lemma rounding_example:
  "createFileGroupsAlgorithmic roundedFiles 9007199254740992 0
     = [plainGroup [roundedFiles ! 1, roundedFiles ! 0] 9007199254740992 0]
   \<and> sum_list (map tokens roundedFiles) = 9007199254740993"
  by (simp add: roundedFiles_def createFileGroupsAlgorithmic_def numberPlus_def round53_def
      roundAt_def Let_def bitLength_numeral_simps)

text \<open>
  Claim C8. A manifest of five files of 200,000 tokens each, with the ceiling 900,000, is
  packed into exactly two groups: the first four files (800,000 tokens) and the fifth.
\<close>

theorem five_files_two_groups:
  assumes "length fs = 5" "\<forall>f\<in>set fs. tokens f = 200000"
  shows "createFileGroupsAlgorithmic fs 900000 0
           = [plainGroup (take 4 fs) 800000 0, plainGroup (drop 4 fs) 200000 1]
         \<and> length (createFileGroupsAlgorithmic fs 900000 0) = 2
         \<and> length (take 4 fs) = 4 \<and> length (drop 4 fs) = 1"
proof -
  from assms(1) obtain a b c d e where fs: "fs = [a, b, c, d, e]"
    by (auto simp: length_Suc_conv eval_nat_numeral)
  with assms(2) show ?thesis
    by (simp add: createFileGroupsAlgorithmic_def numberPlus_exact)
qed

theorem five_files_two_groups_witness:
  "length fiveFiles = 5
   \<and> map tokens fiveFiles = [200000, 200000, 200000, 200000, 200000]
   \<and> map (map filePath \<circ> files) (createFileGroupsAlgorithmic fiveFiles 900000 0)
       = [[''f1'', ''f2'', ''f3'', ''f4''], [''f5'']]
   \<and> map totalTokens (createFileGroupsAlgorithmic fiveFiles 900000 0) = [800000, 200000]
   \<and> length (createFileGroupsAlgorithmic fiveFiles 900000 0) = 2"
proof -
  have a: "length fiveFiles = 5" and b: "\<forall>f\<in>set fiveFiles. tokens f = 200000"
    and c: "map tokens fiveFiles = [200000, 200000, 200000, 200000, 200000]"
    by (simp_all add: fiveFiles_def)
  from five_files_two_groups [OF a b] a c show ?thesis
    by (simp add: fiveFiles_def)
qed

section \<open>Properties of the token estimator\<close>

lemma ceilTimes_mono: "m \<le> n \<Longrightarrow> ceilTimes m c \<le> ceilTimes n c"
  unfolding ceilTimes_def
  by (intro div_le_mono diff_le_mono add_le_mono round53_mono mult_le_mono1) simp_all


lemma newlineCount_append: "newlineCount t \<le> newlineCount (t @ s)"
  by (simp add: newlineCount_def)

lemma spaceCount_append: "spaceCount t \<le> spaceCount (t @ s)"
  by (simp add: spaceCount_def)

lemma specialCharsCount_append: "specialCharsCount t \<le> specialCharsCount (t @ s)"
  by (simp add: specialCharsCount_def)

lemma basicEstimate_append: "basicEstimate t \<le> basicEstimate (t @ s)"
  by (simp add: basicEstimate_def div_le_mono)

lemma multiSpaceCount_append: "multiSpaceCount t \<le> multiSpaceCount (t @ s)"
proof (induction t arbitrary: s rule: multiSpaceCount.induct)
  case 1
  then show ?case by simp
next
  case (2 c)
  then show ?case by simp
next
  case (3 c d rest)
  show ?case
  proof (cases "c = CHR '' '' \<and> d = CHR '' ''")
    case True
    show ?thesis
    proof (cases "\<forall>x\<in>set rest. x = CHR '' ''")
      case all: True
      then have "dropWhile (\<lambda>x. x = CHR '' '') rest = []" by simp
      then have "multiSpaceCount (dropWhile (\<lambda>x. x = CHR '' '') rest) = 0"
        by (simp only: multiSpaceCount.simps)
      with True show ?thesis by simp
    next
      case False
      then have "dropWhile (\<lambda>x. x = CHR '' '') (rest @ s) = dropWhile (\<lambda>x. x = CHR '' '') rest @ s"
        by (auto simp: dropWhile_append1)
      with True "3.IH"(1) [OF True, of s] show ?thesis by simp
    qed
  next
    case False
    with "3.IH"(2) [OF False, of s] show ?thesis by auto
  qed
qed

lemma take_eq_length_le: "take (length k) t = k \<Longrightarrow> length k \<le> length t"
  by (drule arg_cong [of _ _ length]) simp

lemma matchAt_Some: "matchAt ks s = Some k \<Longrightarrow> k \<in> set ks \<and> take (length k) s = k"
  by (induction ks) (auto split: if_splits)

lemma matchAt_None: "matchAt ks s = None \<Longrightarrow> k \<in> set ks \<Longrightarrow> take (length k) s \<noteq> k"
  by (induction ks) (auto split: if_splits)

lemma matchAt_exists: "k \<in> set ks \<Longrightarrow> take (length k) s = k \<Longrightarrow> \<exists>k'. matchAt ks s = Some k'"
  by (induction ks) auto

lemma two_prefixes:
  assumes "take (length k) u = k" "take (length k') u = k'" "length k \<le> length k'"
  shows "take (length k) k' = k"
proof -
  have "take (length k) k' = take (length k) (take (length k') u)" using assms(2) by simp
  also have "\<dots> = take (length k) u" using assms(3) by (simp add: min_def)
  finally show ?thesis using assms(1) by simp
qed

lemma matchAt_append:
  assumes "prefixFree ks" "matchAt ks t = Some k"
  shows "matchAt ks (t @ s) = Some k"
proof -
  from matchAt_Some [OF assms(2)] have k: "k \<in> set ks" "take (length k) t = k" by simp_all
  then have len: "length k \<le> length t" by (intro take_eq_length_le)
  with k have ku: "take (length k) (t @ s) = k" by simp
  from matchAt_exists [OF k(1) ku] obtain k' where m: "matchAt ks (t @ s) = Some k'" ..
  from matchAt_Some [OF m] have k': "k' \<in> set ks" "take (length k') (t @ s) = k'" by simp_all
  from assms(1) k(1) k'(1)
  have pf: "take (length k) k' = k \<longrightarrow> k = k'" "take (length k') k = k' \<longrightarrow> k' = k"
    by (auto simp: prefixFree_def list_all_iff)
  have "k = k'"
  proof (cases "length k \<le> length k'")
    case True
    from two_prefixes [OF ku k'(2) True] pf(1) show ?thesis by simp
  next
    case False
    then have "length k' \<le> length k" by simp
    from two_prefixes [OF k'(2) ku this] pf(2) show ?thesis by simp
  qed
  with m show ?thesis by simp
qed

lemma countMatches_append:
  assumes "prefixFree ks" "noInnerMatch ks"
  shows "countMatches ks t \<le> countMatches ks (t @ s)"
  using assms
proof (induction ks t arbitrary: s rule: countMatches.induct)
  case (1 ks)
  then show ?case by simp
next
  case (2 ks c t)
  show ?case
  proof (cases "matchAt ks (c # t)")
    case (Some k)
    from matchAt_Some [OF Some] have k: "k \<in> set ks" "take (length k) (c # t) = k" by simp_all
    then have len: "length k \<le> length (c # t)" by (intro take_eq_length_le)
    from matchAt_append [OF "2.prems"(1) Some, of s]
    have m: "matchAt ks (c # t @ s) = Some k" by simp
    have "drop (max 1 (length k)) (c # t @ s) = drop (max 1 (length k)) (c # t) @ s"
      using len by (cases k) (simp_all add: max_def)
    with "2.IH"(2) [OF Some "2.prems", of s] Some m show ?thesis by simp
  next
    case None
    show ?thesis
    proof (cases "matchAt ks (c # t @ s)")
      case none: None
      with "2.IH"(1) [OF None "2.prems", of s] None show ?thesis by simp
    next
      case (Some k)
      from matchAt_Some [OF Some] have k: "k \<in> set ks" "take (length k) (c # t @ s) = k"
        by simp_all
      from matchAt_None [OF None k(1)] have nk: "take (length k) (c # t) \<noteq> k" .
      have long: "length (c # t) < length k"
      proof (rule ccontr)
        assume "\<not> length (c # t) < length k"
        then have "take (length k) (c # t @ s) = take (length k) (c # t)" 
          using take_append [of "length k" "c # t" s] by simp
        with k(2) nk show False by simp
      qed
      have "take (length (c # t)) k = take (length (c # t)) (take (length k) ((c # t) @ s))"
        using k(2) by simp
      also have "\<dots> = c # t" using long by (simp add: min_def)
      finally have pre: "take (length (c # t)) k = c # t" .
      from "2.prems"(2) k(1) long
      have "countMatches ks (take (length (c # t)) k) = 0"
        unfolding noInnerMatch_def list_all_iff by auto
      with pre show ?thesis by simp
    qed
  qed
qed

lemma codeStructures_prefixFree: "prefixFree codeStructures"
  by (simp add: prefixFree_def codeStructures_def)

lemma codeStructures_noInnerMatch: "noInnerMatch codeStructures"
  unfolding noInnerMatch_def codeStructures_def
  by (simp add: upt_rec)

lemma codeStructuresCount_append: "codeStructuresCount t \<le> codeStructuresCount (t @ s)"
  unfolding codeStructuresCount_def
  by (rule countMatches_append [OF codeStructures_prefixFree codeStructures_noInnerMatch])

lemma basicEstimate_ceiling: "basicEstimate t \<le> m \<longleftrightarrow> length t \<le> 4 * m"
  unfolding basicEstimate_def by arith

text \<open>
  Claim C6. For every text, \<open>calculateTokens\<close> is at least the ceiling of a quarter of the
  length (the least \<open>m\<close> with \<open>length t \<le> 4 * m\<close>, which is \<open>basicEstimate\<close>) and
  does not decrease when text is appended; the same holds of \<open>calculateFileTokens\<close>.
\<close>

theorem estimators_lower_bound_and_monotone:
  "basicEstimate t \<le> calculateTokens t \<and> length t \<le> 4 * calculateTokens t
   \<and> calculateTokens t \<le> calculateTokens (t @ s)
   \<and> basicEstimate t \<le> calculateFileTokens t \<and> length t \<le> 4 * calculateFileTokens t
   \<and> calculateFileTokens t \<le> calculateFileTokens (t @ s)"
proof -
  have a: "basicEstimate t \<le> calculateTokens t" by (simp add: calculateTokens_def)
  have b: "basicEstimate t \<le> calculateFileTokens t" by (simp add: calculateFileTokens_def)
  have c: "calculateTokens t \<le> calculateTokens (t @ s)"
    unfolding calculateTokens_def
    by (intro add_le_mono ceilTimes_mono basicEstimate_append newlineCount_append
        spaceCount_append specialCharsCount_append)
  have d: "calculateFileTokens t \<le> calculateFileTokens (t @ s)"
    unfolding calculateFileTokens_def
    by (intro add_le_mono ceilTimes_mono basicEstimate_append newlineCount_append
        multiSpaceCount_append specialCharsCount_append codeStructuresCount_append)
  from a b c d show ?thesis by (simp add: basicEstimate_ceiling [symmetric])
qed

theorem estimators_lower_bound_and_monotone_witness:
  "basicEstimate ''let x = {a: 1};'' = 4
   \<and> calculateTokens ''let x = {a: 1};'' = 6
   \<and> calculateTokens (''let x = {a: 1};'' @ ''  // done'') = 9
   \<and> calculateFileTokens ''let x = {a: 1};'' = 7
   \<and> calculateFileTokens (''let x = {a: 1};'' @ ''  // done'') = 11"
  using estimators_lower_bound_and_monotone [of "''let x = {a: 1};''" "''  // done''"]
  by (simp add: calculateTokens_def calculateFileTokens_def basicEstimate_def newlineCount_def
      spaceCount_def specialCharsCount_def specialChars_def codeStructuresCount_def
      codeStructures_def ceilTimes_def round53_def roundAt_def Let_def d0_1_def d0_2_def
      d0_3_def d0_5_def d2_def bitLength_numeral_simps)

section \<open>Properties of the rotation executor\<close>

lemma nextKeyIndex_scheduled:
  "apiKeys \<noteq> [] \<Longrightarrow>
     nextKeyIndex apiKeys (Some (j mod length apiKeys)) = Some (Suc j mod length apiKeys)"
  by (simp add: nextKeyIndex_def mod_Suc_eq)

lemma keyAt_scheduled: "keyAt apiKeys (Some (j mod length apiKeys)) = scheduledKey apiKeys j"
  by (simp add: scheduledKey_def)

lemma scheduledKey_nth:
  "apiKeys \<noteq> [] \<Longrightarrow> scheduledKey apiKeys j = Some (apiKeys ! (j mod length apiKeys))"
  by (simp add: scheduledKey_def keyAt_def)

lemma timeBefore_mono: "i \<le> j \<Longrightarrow> timeBefore requestFn apiKeys i \<le> timeBefore requestFn apiKeys j"
  by (induction j) (auto simp: le_Suc_eq)

lemma retryLoop_reaches:
  assumes "apiKeys \<noteq> []"
    and "\<forall>j<n. rotatableFailure (fst (requestFn (Suc j) (scheduledKey apiKeys j)))"
    and "\<forall>j<n. timeBefore requestFn apiKeys j < maxDurationMs"
  shows "retryWithApiKeyRotation requestFn apiKeys maxDurationMs =
         retryLoop requestFn apiKeys maxDurationMs (timeBefore requestFn apiKeys n)
           (Some (n mod length apiKeys)) (lastErrorBefore requestFn apiKeys n) n
           (map (scheduledKey apiKeys) [0..<n])"
  using assms(2,3)
proof (induction n)
  case 0
  then show ?case by (simp add: retryWithApiKeyRotation_def)
next
  case (Suc n)
  have ih: "retryWithApiKeyRotation requestFn apiKeys maxDurationMs =
         retryLoop requestFn apiKeys maxDurationMs (timeBefore requestFn apiKeys n)
           (Some (n mod length apiKeys)) (lastErrorBefore requestFn apiKeys n) n
           (map (scheduledKey apiKeys) [0..<n])"
    using Suc.prems by (intro Suc.IH) auto
  from Suc.prems(1) have "rotatableFailure (fst (requestFn (Suc n) (scheduledKey apiKeys n)))"
    by simp
  then obtain e where e: "fst (requestFn (Suc n) (scheduledKey apiKeys n)) = Throws e"
    "isRotatableError (message e)"
    by (auto simp: rotatableFailure_def split: response.splits)
  from Suc.prems(2) have t: "timeBefore requestFn apiKeys n < maxDurationMs" by simp
  show ?case
    unfolding ih
    by (subst retryLoop.simps)
       (simp add: t e keyAt_scheduled nextKeyIndex_scheduled [OF assms(1)])
qed


lemma take_eq_iff_append: "take (length sub) s = sub \<longleftrightarrow> (\<exists>post. s = sub @ post)"
proof
  assume "take (length sub) s = sub"
  then have "s = sub @ drop (length sub) s" by (metis append_take_drop_id)
  then show "\<exists>post. s = sub @ post" ..
next
  assume "\<exists>post. s = sub @ post"
  then show "take (length sub) s = sub" by auto
qed

lemma includesStr_iff: "includesStr s sub \<longleftrightarrow> (\<exists>pre post. s = pre @ sub @ post)"
proof (induction s)
  case Nil
  then show ?case by auto
next
  case (Cons c s)
  show ?case
  proof
    assume "includesStr (c # s) sub"
    then consider "take (length sub) (c # s) = sub" | "includesStr s sub" by auto
    then show "\<exists>pre post. c # s = pre @ sub @ post"
    proof cases
      case 1
      then obtain post where "c # s = sub @ post" unfolding take_eq_iff_append ..
      then have "c # s = [] @ sub @ post" by simp
      then show ?thesis by blast
    next
      case 2
      with Cons.IH obtain pre post where "s = pre @ sub @ post" by blast
      then have "c # s = (c # pre) @ sub @ post" by simp
      then show ?thesis by blast
    qed
  next
    assume "\<exists>pre post. c # s = pre @ sub @ post"
    then obtain pre post where e: "c # s = pre @ sub @ post" by blast
    show "includesStr (c # s) sub"
    proof (cases pre)
      case Nil
      with e have "take (length sub) (c # s) = sub" unfolding take_eq_iff_append by auto
      then show ?thesis by simp
    next
      case (Cons p pre')
      with e have "s = pre' @ sub @ post" by simp
      with Cons.IH have "includesStr s sub" by blast
      then show ?thesis by simp
    qed
  qed
qed

lemma includesStr_trans:
  assumes "includesStr s mid" "includesStr mid sub"
  shows "includesStr s sub"
proof -
  from assms obtain a b c d where "s = a @ mid @ b" "mid = c @ sub @ d"
    unfolding includesStr_iff by blast
  then have "s = (a @ c) @ sub @ (d @ b)" by simp
  then show ?thesis unfolding includesStr_iff by blast
qed

lemma includesStr_eval:
  "includesStr [] sub = (sub = [])"
  "includesStr (c # s) [] = True"
  "includesStr (c # s) (d # sub) = ((c = d \<and> take (length sub) s = sub) \<or> includesStr s (d # sub))"
  by simp_all

text \<open>Every message the code classifies as rotatable matches a signature of the
  specification's list; the converse fails, see the counterexample below.\<close>

lemma code_rotatable_within_spec: "isRotatableError msg \<Longrightarrow> specRotatable msg"
proof -
  assume r: "isRotatableError msg"
  have q: "includesStr ''exceeded your current quota'' ''quota''"
    by (simp add: includesStr_eval)
  have p: "includesStr ''Please try again later'' ''try again later''"
    by (simp add: includesStr_eval)
  from r includesStr_trans [OF _ q, of msg] includesStr_trans [OF _ p, of msg]
  show ?thesis
    unfolding isRotatableError_def specRotatable_def specRotatableSignatures_def
    by (simp del: includesStr.simps) blast
qed

text \<open>
  Claim C2, amended in the one signature where the code differs: the executor
  classifies by the fragment \<open>Please try again later\<close>, not \<open>try again later\<close>
  (\<open>isRotatableError\<close>, case-sensitive substrings). For every non-empty pool: when the
  first \<open>n\<close> attempts have failed with rotatable errors and the deadline has not elapsed,
  attempt \<open>n + 1\<close> uses the credential at index \<open>n mod\<close> pool size; if it succeeds its
  result is returned after exactly \<open>n + 1\<close> attempts; if it fails with a rotatable error
  the cursor moves to (index + 1) \<open>mod\<close> pool size, the backoff is added to the clock and
  the loop goes on (with a pool of size 1, on the same credential); any other error is
  thrown at once, with no further attempt.
\<close>

theorem rotation_executor:
  assumes "apiKeys \<noteq> []"
    and "\<forall>j<n. rotatableFailure (fst (requestFn (Suc j) (scheduledKey apiKeys j)))"
    and "timeBefore requestFn apiKeys n < maxDurationMs"
  shows
    "scheduledKey apiKeys n = Some (apiKeys ! (n mod length apiKeys))
     \<and> (case requestFn (Suc n) (scheduledKey apiKeys n) of
          (Returns result, d) \<Rightarrow>
            retryWithApiKeyRotation requestFn apiKeys maxDurationMs =
              \<lparr>outcome = Inr result, attempts = Suc n,
               keysTried = map (scheduledKey apiKeys) [0..<Suc n],
               elapsedMs = timeBefore requestFn apiKeys n + d\<rparr>
        | (Throws e, d) \<Rightarrow>
            if isRotatableError (message e)
            then retryWithApiKeyRotation requestFn apiKeys maxDurationMs =
                   retryLoop requestFn apiKeys maxDurationMs
                     (timeBefore requestFn apiKeys n + d + backoffMs)
                     (Some ((n mod length apiKeys + 1) mod length apiKeys)) (Some e) (Suc n)
                     (map (scheduledKey apiKeys) [0..<Suc n])
            else retryWithApiKeyRotation requestFn apiKeys maxDurationMs =
                   \<lparr>outcome = Inl e, attempts = Suc n,
                    keysTried = map (scheduledKey apiKeys) [0..<Suc n],
                    elapsedMs = timeBefore requestFn apiKeys n + d\<rparr>)"
proof -
  have "\<forall>j<n. timeBefore requestFn apiKeys j < maxDurationMs"
  proof (intro allI impI)
    fix j assume "j < n"
    then have "timeBefore requestFn apiKeys j \<le> timeBefore requestFn apiKeys n"
      by (intro timeBefore_mono) simp
    with assms(3) show "timeBefore requestFn apiKeys j < maxDurationMs" by simp
  qed
  note at_n = retryLoop_reaches [OF assms(1,2) this]
  obtain r d where rd: "requestFn (Suc n) (scheduledKey apiKeys n) = (r, d)"
    by (cases "requestFn (Suc n) (scheduledKey apiKeys n)")
  have step: "retryWithApiKeyRotation requestFn apiKeys maxDurationMs =
     (case r of
        Returns result \<Rightarrow>
          \<lparr>outcome = Inr result, attempts = Suc n,
           keysTried = map (scheduledKey apiKeys) [0..<Suc n],
           elapsedMs = timeBefore requestFn apiKeys n + d\<rparr>
      | Throws e \<Rightarrow>
          if isRotatableError (message e)
          then retryLoop requestFn apiKeys maxDurationMs
                 (timeBefore requestFn apiKeys n + d + backoffMs)
                 (Some ((n mod length apiKeys + 1) mod length apiKeys)) (Some e) (Suc n)
                 (map (scheduledKey apiKeys) [0..<Suc n])
          else \<lparr>outcome = Inl e, attempts = Suc n,
                keysTried = map (scheduledKey apiKeys) [0..<Suc n],
                elapsedMs = timeBefore requestFn apiKeys n + d\<rparr>)"
    unfolding at_n
    by (subst retryLoop.simps)
       (simp add: assms(1,3) rd keyAt_scheduled nextKeyIndex_def split: response.splits)
  have "case (r, d) of
          (Returns result, d) \<Rightarrow>
            retryWithApiKeyRotation requestFn apiKeys maxDurationMs =
              \<lparr>outcome = Inr result, attempts = Suc n,
               keysTried = map (scheduledKey apiKeys) [0..<Suc n],
               elapsedMs = timeBefore requestFn apiKeys n + d\<rparr>
        | (Throws e, d) \<Rightarrow>
            if isRotatableError (message e)
            then retryWithApiKeyRotation requestFn apiKeys maxDurationMs =
                   retryLoop requestFn apiKeys maxDurationMs
                     (timeBefore requestFn apiKeys n + d + backoffMs)
                     (Some ((n mod length apiKeys + 1) mod length apiKeys)) (Some e) (Suc n)
                     (map (scheduledKey apiKeys) [0..<Suc n])
            else retryWithApiKeyRotation requestFn apiKeys maxDurationMs =
                   \<lparr>outcome = Inl e, attempts = Suc n,
                    keysTried = map (scheduledKey apiKeys) [0..<Suc n],
                    elapsedMs = timeBefore requestFn apiKeys n + d\<rparr>"
    using step by (cases r) simp_all
  then show ?thesis
    unfolding rd using scheduledKey_nth [OF assms(1), of n] by (rule conjI [rotated])
qed

text \<open>Three credentials, two rotatable failures, then success: three attempts, one per
  credential.\<close>

theorem rotation_executor_witness:
  "threeKeys \<noteq> []
   \<and> rotatableFailure (fst (thirdSucceeds 1 (scheduledKey threeKeys 0)))
   \<and> rotatableFailure (fst (thirdSucceeds 2 (scheduledKey threeKeys 1)))
   \<and> timeBefore thirdSucceeds threeKeys 2 < defaultMaxDurationMs
   \<and> retryWithApiKeyRotation thirdSucceeds threeKeys defaultMaxDurationMs =
        \<lparr>outcome = Inr ''ok'', attempts = 3,
         keysTried = [Some ''k1'', Some ''k2'', Some ''k3''], elapsedMs = 2600\<rparr>"
proof -
  note ev = threeKeys_def thirdSucceeds_def scriptedRequest_def scheduledKey_def keyAt_def
    rotatableFailure_def isRotatableError_def backoffMs_def defaultMaxDurationMs_def
    includesStr_eval numeral_2_eq_2
  have a: "threeKeys \<noteq> []" by (simp add: threeKeys_def)
  have b1: "rotatableFailure (fst (thirdSucceeds 1 (scheduledKey threeKeys 0)))"
    and b2: "rotatableFailure (fst (thirdSucceeds 2 (scheduledKey threeKeys 1)))"
    by (simp_all add: ev)
  then have b: "\<forall>j<2. rotatableFailure (fst (thirdSucceeds (Suc j) (scheduledKey threeKeys j)))"
    by (simp add: numeral_2_eq_2 less_Suc_eq)
  have c: "timeBefore thirdSucceeds threeKeys 2 < defaultMaxDurationMs"
    by (simp add: ev)
  from rotation_executor [OF a b c]
  have "retryWithApiKeyRotation thirdSucceeds threeKeys defaultMaxDurationMs =
           \<lparr>outcome = Inr ''ok'', attempts = 3,
            keysTried = [Some ''k1'', Some ''k2'', Some ''k3''], elapsedMs = 2600\<rparr>"
    by (simp add: ev upt_rec)
  with a b1 b2 c show ?thesis by simp
qed

text \<open>The claim as stated fails: a message that matches the listed signature
  \<open>try again later\<close> without the word before it is not retried, although the second
  attempt would have succeeded.\<close>

theorem rotation_counterexample:
  "specRotatable ''Server busy, try again later''
   \<and> retryWithApiKeyRotation
        (scriptedRequest [Throws (Error ''Server busy, try again later''), Returns ''ok''] 200)
        [''k1'', ''k2''] defaultMaxDurationMs
      = \<lparr>outcome = Inl (Error ''Server busy, try again later''), attempts = 1,
         keysTried = [Some ''k1''], elapsedMs = 200\<rparr>"
  by (simp add: specRotatable_def specRotatableSignatures_def retryWithApiKeyRotation_def
      retryLoop.simps scriptedRequest_def keyAt_def isRotatableError_def
      defaultMaxDurationMs_def includesStr_eval)

text \<open>Further runs: an error that is not rotatable on the first attempt, and a pool of
  one credential that is tried again after a rotatable failure.\<close>

lemma non_rotatable_example:
  "retryWithApiKeyRotation
     (scriptedRequest [Throws (Error ''400 Bad Request''), Returns ''ok''] 200)
     [''k1'', ''k2'', ''k3''] defaultMaxDurationMs
   = \<lparr>outcome = Inl (Error ''400 Bad Request''), attempts = 1,
      keysTried = [Some ''k1''], elapsedMs = 200\<rparr>"
  by (simp add: retryWithApiKeyRotation_def retryLoop.simps scriptedRequest_def keyAt_def
      isRotatableError_def defaultMaxDurationMs_def includesStr_eval)

lemma single_key_example:
  "retryWithApiKeyRotation
     (scriptedRequest [Throws (Error ''503 Service Unavailable''), Returns ''ok''] 200)
     [''k1''] defaultMaxDurationMs
   = \<lparr>outcome = Inr ''ok'', attempts = 2,
      keysTried = [Some ''k1'', Some ''k1''], elapsedMs = 1400\<rparr>"
  by (simp add: retryWithApiKeyRotation_def retryLoop.simps scriptedRequest_def keyAt_def
      isRotatableError_def backoffMs_def defaultMaxDurationMs_def includesStr_eval
      nextKeyIndex_def)

section \<open>Properties of the batch analysis coordinator\<close>

lemma timeBefore_earlier:
  "timeBefore requestFn apiKeys n < maxDurationMs
    \<Longrightarrow> \<forall>j<n. timeBefore requestFn apiKeys j < maxDurationMs"
proof (intro allI impI)
  fix j assume "timeBefore requestFn apiKeys n < maxDurationMs" "j < n"
  with timeBefore_mono [of j n requestFn apiKeys]
  show "timeBefore requestFn apiKeys j < maxDurationMs" by simp
qed

lemma retry_returns_after:
  assumes "apiKeys \<noteq> []"
    and "\<forall>j<n. rotatableFailure (fst (requestFn (Suc j) (scheduledKey apiKeys j)))"
    and "timeBefore requestFn apiKeys n < maxDurationMs"
    and "fst (requestFn (Suc n) (scheduledKey apiKeys n)) = Returns v"
  shows "outcome (retryWithApiKeyRotation requestFn apiKeys maxDurationMs) = Inr v"
  unfolding retryLoop_reaches [OF assms(1,2) timeBefore_earlier [OF assms(3)]]
  by (subst retryLoop.simps) (simp add: assms(3,4) keyAt_scheduled)

lemma retry_throws_after:
  assumes "apiKeys \<noteq> []"
    and "\<forall>j<n. rotatableFailure (fst (requestFn (Suc j) (scheduledKey apiKeys j)))"
    and "timeBefore requestFn apiKeys n < maxDurationMs"
    and "fst (requestFn (Suc n) (scheduledKey apiKeys n)) = Throws e"
    and "\<not> isRotatableError (message e)"
  shows "outcome (retryWithApiKeyRotation requestFn apiKeys maxDurationMs) = Inl e"
  unfolding retryLoop_reaches [OF assms(1,2) timeBefore_earlier [OF assms(3)]]
  by (subst retryLoop.simps) (simp add: assms(3,4,5) keyAt_scheduled)

lemma retryLoop_alwaysThrows:
  "alwaysThrows requestFn \<Longrightarrow>
     \<exists>e. outcome (retryLoop requestFn apiKeys maxDurationMs elapsed idx lastError n tried) = Inl e"
proof (induction requestFn apiKeys maxDurationMs elapsed idx lastError n tried
       rule: retryLoop.induct)
  case (1 requestFn apiKeys maxDurationMs elapsed currentKeyIndex lastError attemptCount tried)
  from "1.prems" obtain e where
    e: "fst (requestFn (attemptCount + 1) (keyAt apiKeys currentKeyIndex)) = Throws e"
    unfolding alwaysThrows_def by blast
  show ?case
  proof (cases "elapsed < maxDurationMs \<and> isRotatableError (message e)")
    case True
    with "1.IH" [OF _ e _ "1.prems"] e show ?thesis
      by (subst retryLoop.simps) simp
  next
    case False
    with e show ?thesis by (subst retryLoop.simps) auto
  qed
qed

lemma retryWithApiKeyRotation_alwaysThrows:
  "alwaysThrows requestFn \<Longrightarrow>
     \<exists>e. outcome (retryWithApiKeyRotation requestFn apiKeys maxDurationMs) = Inl e"
  unfolding retryWithApiKeyRotation_def by (rule retryLoop_alwaysThrows)

lemma groupResults_length: "length (groupResults gc apiKeys groups) = length groups"
  by (simp add: groupResults_def)

lemma groupResults_nth:
  "i < length groups \<Longrightarrow>
     groupResults gc apiKeys groups ! i = analyzeGroup gc apiKeys (groups ! i) i"
  by (simp add: groupResults_def nth_enumerate_eq)

lemma groupResults_three:
  "groupResults gc apiKeys [a, b, c]
     = [analyzeGroup gc apiKeys a 0, analyzeGroup gc apiKeys b 1, analyzeGroup gc apiKeys c 2]"
  by (simp add: groupResults_def enumerate_simps numeral_2_eq_2)

lemma analyzeGroup_cases:
  "analyzeGroup gc apiKeys g i
     = (case outcome (retryWithApiKeyRotation (gc g i) apiKeys defaultMaxDurationMs) of
          Inl e \<Rightarrow> ''**Group '' @ showNat (i + 1) @ '' Analysis Failed:** '' @ message e
        | Inr (Inl e) \<Rightarrow> ''**Group '' @ showNat (i + 1) @ '' Analysis Failed:** '' @ message e
        | Inr (Inr groupAnalysis) \<Rightarrow> groupAnalysis)"
  by (simp add: analyzeGroup_def analysisFailed_def split: sum.splits)

lemma showNat_digit: "n < 10 \<Longrightarrow> showNat n = [digits ! n]"
  by (simp add: showNat.simps)

text \<open>
  Claim C3. The coordinator returns one outcome per group, at the position of the group.
  The outcome at position \<open>i\<close> is the text of that group's analysis when the executor
  returns a response whose text can be read, and otherwise the failure marker
  \<open>**Group i+1 Analysis Failed:** \<close> followed by the message of the error thrown (by
  the executor, or by reading the text). It is determined by the requests of that group
  alone, so a failing group leaves the others as they are, and since the executor always
  ends, every outcome is there. In terms of the requests: after any number of rotatable
  failures within the deadline, a response yields its text, and an error that is not
  rotatable yields the marker with its message; a group whose requests all fail yields
  the marker with the message of the error the executor throws. Three groups of which
  the second always fails and the others succeed give three outcomes in order, the
  second one the marker \<open>**Group 2 Analysis Failed:** \<dots>\<close>, the first and third their
  texts.
\<close>

theorem coordinator_outcomes:
  "length (groupResults gc apiKeys groups) = length groups
   \<and> (\<forall>i<length groups.
         groupResults gc apiKeys groups ! i
           = (case outcome (retryWithApiKeyRotation (gc (groups ! i) i) apiKeys
                              defaultMaxDurationMs) of
                Inl e \<Rightarrow> ''**Group '' @ showNat (i + 1) @ '' Analysis Failed:** '' @ message e
              | Inr (Inl e) \<Rightarrow>
                  ''**Group '' @ showNat (i + 1) @ '' Analysis Failed:** '' @ message e
              | Inr (Inr groupAnalysis) \<Rightarrow> groupAnalysis)
         \<and> (\<forall>gc'. gc' (groups ! i) i = gc (groups ! i) i
               \<longrightarrow> groupResults gc' apiKeys groups ! i = groupResults gc apiKeys groups ! i)
         \<and> (alwaysThrows (gc (groups ! i) i)
               \<longrightarrow> (\<exists>e. outcome (retryWithApiKeyRotation (gc (groups ! i) i) apiKeys
                                    defaultMaxDurationMs) = Inl e
                         \<and> groupResults gc apiKeys groups ! i
                             = ''**Group '' @ showNat (i + 1) @ '' Analysis Failed:** ''
                               @ message e))
         \<and> (\<forall>n. apiKeys \<noteq> []
                 \<and> (\<forall>j<n. rotatableFailure
                              (fst (gc (groups ! i) i (Suc j) (scheduledKey apiKeys j))))
                 \<and> timeBefore (gc (groups ! i) i) apiKeys n < defaultMaxDurationMs
               \<longrightarrow> (case fst (gc (groups ! i) i (Suc n) (scheduledKey apiKeys n)) of
                      Returns (Inr groupAnalysis) \<Rightarrow>
                        groupResults gc apiKeys groups ! i = groupAnalysis
                    | Returns (Inl e) \<Rightarrow>
                        groupResults gc apiKeys groups ! i
                          = ''**Group '' @ showNat (i + 1) @ '' Analysis Failed:** '' @ message e
                    | Throws e \<Rightarrow>
                        \<not> isRotatableError (message e)
                        \<longrightarrow> groupResults gc apiKeys groups ! i
                              = ''**Group '' @ showNat (i + 1) @ '' Analysis Failed:** ''
                                @ message e)))
   \<and> (\<forall>a b c t1 t3.
         groups = [a, b, c]
         \<and> outcome (retryWithApiKeyRotation (gc a 0) apiKeys defaultMaxDurationMs)
             = Inr (Inr t1)
         \<and> alwaysThrows (gc b 1)
         \<and> outcome (retryWithApiKeyRotation (gc c 2) apiKeys defaultMaxDurationMs)
             = Inr (Inr t3)
         \<longrightarrow> (\<exists>e. outcome (retryWithApiKeyRotation (gc b 1) apiKeys defaultMaxDurationMs)
                     = Inl e
                   \<and> groupResults gc apiKeys groups
                       = [t1, ''**Group 2 Analysis Failed:** '' @ message e, t3]))"
proof (intro conjI allI impI)
  show "length (groupResults gc apiKeys groups) = length groups" by (rule groupResults_length)
next
  fix i assume "i < length groups"
  then show "groupResults gc apiKeys groups ! i
           = (case outcome (retryWithApiKeyRotation (gc (groups ! i) i) apiKeys
                              defaultMaxDurationMs) of
                Inl e \<Rightarrow> ''**Group '' @ showNat (i + 1) @ '' Analysis Failed:** '' @ message e
              | Inr (Inl e) \<Rightarrow>
                  ''**Group '' @ showNat (i + 1) @ '' Analysis Failed:** '' @ message e
              | Inr (Inr groupAnalysis) \<Rightarrow> groupAnalysis)"
    by (simp only: groupResults_nth analyzeGroup_cases)
next
  fix i gc' assume "i < length groups" "gc' (groups ! i) i = gc (groups ! i) i"
  then show "groupResults gc' apiKeys groups ! i = groupResults gc apiKeys groups ! i"
    by (simp add: groupResults_nth analyzeGroup_def)
next
  fix i assume i: "i < length groups" and "alwaysThrows (gc (groups ! i) i)"
  then obtain e where
    e: "outcome (retryWithApiKeyRotation (gc (groups ! i) i) apiKeys defaultMaxDurationMs) = Inl e"
    using retryWithApiKeyRotation_alwaysThrows by blast
  with i have "groupResults gc apiKeys groups ! i
                 = ''**Group '' @ showNat (i + 1) @ '' Analysis Failed:** '' @ message e"
    by (simp add: groupResults_nth analyzeGroup_cases)
  with e show "\<exists>e. outcome (retryWithApiKeyRotation (gc (groups ! i) i) apiKeys
                                    defaultMaxDurationMs) = Inl e
                         \<and> groupResults gc apiKeys groups ! i
                             = ''**Group '' @ showNat (i + 1) @ '' Analysis Failed:** ''
                               @ message e"
    by blast
next
  fix i n
  assume i: "i < length groups"
    and h: "apiKeys \<noteq> []
                 \<and> (\<forall>j<n. rotatableFailure
                              (fst (gc (groups ! i) i (Suc j) (scheduledKey apiKeys j))))
                 \<and> timeBefore (gc (groups ! i) i) apiKeys n < defaultMaxDurationMs"
  let ?r = "fst (gc (groups ! i) i (Suc n) (scheduledKey apiKeys n))"
  from h have k: "apiKeys \<noteq> []"
    and f: "\<forall>j<n. rotatableFailure (fst (gc (groups ! i) i (Suc j) (scheduledKey apiKeys j)))"
    and t: "timeBefore (gc (groups ! i) i) apiKeys n < defaultMaxDurationMs"
    by simp_all
  have ret: "outcome (retryWithApiKeyRotation (gc (groups ! i) i) apiKeys defaultMaxDurationMs)
               = Inr v" if "?r = Returns v" for v
    using k f t that by (rule retry_returns_after)
  have thr: "outcome (retryWithApiKeyRotation (gc (groups ! i) i) apiKeys defaultMaxDurationMs)
               = Inl e" if "?r = Throws e" "\<not> isRotatableError (message e)" for e
    using k f t that by (rule retry_throws_after)
  show "case ?r of
          Returns (Inr groupAnalysis) \<Rightarrow> groupResults gc apiKeys groups ! i = groupAnalysis
        | Returns (Inl e) \<Rightarrow>
            groupResults gc apiKeys groups ! i
              = ''**Group '' @ showNat (i + 1) @ '' Analysis Failed:** '' @ message e
        | Throws e \<Rightarrow>
            \<not> isRotatableError (message e)
            \<longrightarrow> groupResults gc apiKeys groups ! i
                  = ''**Group '' @ showNat (i + 1) @ '' Analysis Failed:** '' @ message e"
    using i ret thr
    by (auto simp: groupResults_nth analyzeGroup_cases split: response.splits sum.splits)
next
  fix a b c t1 t3
  assume h: "groups = [a, b, c]
         \<and> outcome (retryWithApiKeyRotation (gc a 0) apiKeys defaultMaxDurationMs)
             = Inr (Inr t1)
         \<and> alwaysThrows (gc b 1)
         \<and> outcome (retryWithApiKeyRotation (gc c 2) apiKeys defaultMaxDurationMs)
             = Inr (Inr t3)"
  then obtain e where
    e: "outcome (retryWithApiKeyRotation (gc b 1) apiKeys defaultMaxDurationMs) = Inl e"
    using retryWithApiKeyRotation_alwaysThrows by blast
  with h have "groupResults gc apiKeys groups
                 = [t1, ''**Group 2 Analysis Failed:** '' @ message e, t3]"
    by (simp add: groupResults_three analyzeGroup_cases showNat_digit digits_def)
  with e show "\<exists>e. outcome (retryWithApiKeyRotation (gc b 1) apiKeys defaultMaxDurationMs)
                     = Inl e
                   \<and> groupResults gc apiKeys groups
                       = [t1, ''**Group 2 Analysis Failed:** '' @ message e, t3]"
    by blast
qed

text \<open>Three groups: the first answered at once, the second failing with an error that is
  not rotatable, the third answered at the second attempt.\<close>

theorem coordinator_outcomes_witness:
  "length threeGroups = 3
   \<and> fst (thirdRetries (threeGroups ! 0) 0 1 (scheduledKey [''k1''] 0))
       = Returns (Inr ''first analysis'')
   \<and> alwaysThrows (thirdRetries (threeGroups ! 1) 1)
   \<and> fst (thirdRetries (threeGroups ! 1) 1 1 (scheduledKey [''k1''] 0))
       = Throws (Error ''Internal error'')
   \<and> \<not> isRotatableError ''Internal error''
   \<and> rotatableFailure (fst (thirdRetries (threeGroups ! 2) 2 1 (scheduledKey [''k1''] 0)))
   \<and> timeBefore (thirdRetries (threeGroups ! 2) 2) [''k1''] 1 < defaultMaxDurationMs
   \<and> fst (thirdRetries (threeGroups ! 2) 2 2 (scheduledKey [''k1''] 1))
       = Returns (Inr ''third analysis'')
   \<and> outcome (retryWithApiKeyRotation (thirdRetries (threeGroups ! 0) 0) [''k1'']
                defaultMaxDurationMs) = Inr (Inr ''first analysis'')
   \<and> outcome (retryWithApiKeyRotation (thirdRetries (threeGroups ! 1) 1) [''k1'']
                defaultMaxDurationMs) = Inl (Error ''Internal error'')
   \<and> outcome (retryWithApiKeyRotation (thirdRetries (threeGroups ! 2) 2) [''k1'']
                defaultMaxDurationMs) = Inr (Inr ''third analysis'')
   \<and> length (groupResults thirdRetries [''k1''] threeGroups) = 3
   \<and> groupResults thirdRetries [''k1''] threeGroups ! 0 = ''first analysis''
   \<and> groupResults thirdRetries [''k1''] threeGroups ! 1
       = ''**Group 2 Analysis Failed:** Internal error''
   \<and> groupResults thirdRetries [''k1''] threeGroups ! 2 = ''third analysis''
   \<and> groupResults thirdRetries [''k1''] threeGroups
       = [''first analysis'', ''**Group 2 Analysis Failed:** Internal error'',
          ''third analysis'']"
proof -
  note ev = threeGroups_def thirdRetries_def scheduledKey_def keyAt_def rotatableFailure_def
    isRotatableError_def backoffMs_def defaultMaxDurationMs_def includesStr_eval
  have len: "length threeGroups = 3" by (simp add: threeGroups_def)
  have g1: "fst (thirdRetries (threeGroups ! 0) 0 1 (scheduledKey [''k1''] 0))
       = Returns (Inr ''first analysis'')"
    by (simp add: ev)
  have g2a: "alwaysThrows (thirdRetries (threeGroups ! 1) 1)"
    by (simp add: alwaysThrows_def thirdRetries_def)
  have g2: "fst (thirdRetries (threeGroups ! 1) 1 1 (scheduledKey [''k1''] 0))
       = Throws (Error ''Internal error'')"
    by (simp add: ev)
  have nr: "\<not> isRotatableError ''Internal error''"
    by (simp add: ev)
  have g3f: "rotatableFailure (fst (thirdRetries (threeGroups ! 2) 2 1 (scheduledKey [''k1''] 0)))"
    by (simp add: ev)
  then have g3all: "\<forall>j<1. rotatableFailure
                       (fst (thirdRetries (threeGroups ! 2) 2 (Suc j) (scheduledKey [''k1''] j)))"
    by simp
  have g3t: "timeBefore (thirdRetries (threeGroups ! 2) 2) [''k1''] 1 < defaultMaxDurationMs"
    by (simp add: ev)
  have g3: "fst (thirdRetries (threeGroups ! 2) 2 2 (scheduledKey [''k1''] 1))
       = Returns (Inr ''third analysis'')"
    by (simp add: ev)
  have g3s: "fst (thirdRetries (threeGroups ! 2) 2 (Suc 1) (scheduledKey [''k1''] 1))
       = Returns (Inr ''third analysis'')"
    by (simp add: ev)
  have t0: "timeBefore (thirdRetries (threeGroups ! 0) 0) [''k1''] 0 < defaultMaxDurationMs"
    "timeBefore (thirdRetries (threeGroups ! 1) 1) [''k1''] 0 < defaultMaxDurationMs"
    by (simp_all add: defaultMaxDurationMs_def)
  have o1: "outcome (retryWithApiKeyRotation (thirdRetries (threeGroups ! 0) 0) [''k1'']
                defaultMaxDurationMs) = Inr (Inr ''first analysis'')"
    using g1 t0(1) by (intro retry_returns_after [where n = 0]) simp_all
  have o3: "outcome (retryWithApiKeyRotation (thirdRetries (threeGroups ! 2) 2) [''k1'']
                defaultMaxDurationMs) = Inr (Inr ''third analysis'')"
    using g3all g3t g3s by (intro retry_returns_after [where n = 1]) simp_all
  note inst = coordinator_outcomes [of thirdRetries "[''k1'']" threeGroups]
  from inst have l: "length (groupResults thirdRetries [''k1''] threeGroups) = 3"
    by (simp add: len)
  from inst have at: "\<And>i n. i < 3 \<Longrightarrow>
      (\<forall>j<n. rotatableFailure (fst (thirdRetries (threeGroups ! i) i (Suc j) (scheduledKey [''k1''] j))))
      \<Longrightarrow> timeBefore (thirdRetries (threeGroups ! i) i) [''k1''] n < defaultMaxDurationMs
      \<Longrightarrow> (case fst (thirdRetries (threeGroups ! i) i (Suc n) (scheduledKey [''k1''] n)) of
                      Returns (Inr groupAnalysis) \<Rightarrow>
                        groupResults thirdRetries [''k1''] threeGroups ! i = groupAnalysis
                    | Returns (Inl e) \<Rightarrow>
                        groupResults thirdRetries [''k1''] threeGroups ! i
                          = ''**Group '' @ showNat (i + 1) @ '' Analysis Failed:** '' @ message e
                    | Throws e \<Rightarrow>
                        \<not> isRotatableError (message e)
                        \<longrightarrow> groupResults thirdRetries [''k1''] threeGroups ! i
                              = ''**Group '' @ showNat (i + 1) @ '' Analysis Failed:** ''
                                @ message e)"
    by (simp add: len)
  from at [of 0 0] g1 t0(1)
  have r0: "groupResults thirdRetries [''k1''] threeGroups ! 0 = ''first analysis''"
    by simp
  from at [of 1 0] g2 nr t0(2)
  have r1: "groupResults thirdRetries [''k1''] threeGroups ! 1
       = ''**Group 2 Analysis Failed:** Internal error''"
    by (simp add: showNat_digit digits_def)
  from at [of 2 1] g3all g3t g3s
  have r2: "groupResults thirdRetries [''k1''] threeGroups ! 2 = ''third analysis''"
    by simp
  have "1 < length threeGroups" by (simp add: len)
  note second = inst [THEN conjunct2, THEN conjunct1, rule_format, OF this]
  from second [THEN conjunct2, THEN conjunct2, THEN conjunct1, rule_format, OF g2a]
  obtain e where
    e: "outcome (retryWithApiKeyRotation (thirdRetries (threeGroups ! 1) 1) [''k1'']
                  defaultMaxDurationMs) = Inl e"
    "groupResults thirdRetries [''k1''] threeGroups ! 1
       = ''**Group '' @ showNat (1 + 1) @ '' Analysis Failed:** '' @ message e"
    by blast
  from e(2) r1 have "message e = ''Internal error''"
    by (simp add: showNat_digit digits_def)
  then have "e = Error ''Internal error''" by (cases e) simp
  with e(1) have o2: "outcome (retryWithApiKeyRotation (thirdRetries (threeGroups ! 1) 1) [''k1'']
                defaultMaxDurationMs) = Inl (Error ''Internal error'')"
    by simp
  have three: "threeGroups = [threeGroups ! 0, threeGroups ! 1, threeGroups ! 2]"
    by (simp add: threeGroups_def)
  from inst [THEN conjunct2, THEN conjunct2, rule_format,
      of "threeGroups ! 0" "threeGroups ! 1" "threeGroups ! 2"
         "''first analysis''" "''third analysis''"]
    three o1 g2a o3
  obtain e' where
    e': "outcome (retryWithApiKeyRotation (thirdRetries (threeGroups ! 1) 1) [''k1'']
                   defaultMaxDurationMs) = Inl e'"
    "groupResults thirdRetries [''k1''] threeGroups
       = [''first analysis'', ''**Group 2 Analysis Failed:** '' @ message e', ''third analysis'']"
    by blast
  from e'(1) o2 have "e' = Error ''Internal error''" by simp
  with e'(2) have all: "groupResults thirdRetries [''k1''] threeGroups
       = [''first analysis'', ''**Group 2 Analysis Failed:** Internal error'',
          ''third analysis'']"
    by simp
  show ?thesis
    by (intro conjI len g1 g2a g2 nr g3f g3t g3 o1 o2 o3 l r0 r1 r2 all)
qed

section \<open>Properties of the limit check\<close>

text \<open>
  Claim C7. \<open>validateTokenLimit\<close> throws if and only if the three estimates add up to
  more than 1,000,000, and returns normally otherwise; its error reports the three
  estimates, their sum and the excess. Where a tool checks before it sends
  (\<open>validateThenSend\<close>), a failed check is the result whatever the world would answer:
  no request is made.
\<close>

theorem validateTokenLimit_throws_iff:
  "((\<exists>e. validateTokenLimit text systemPrompt question = Inl e)
      \<longleftrightarrow> 1000000 < calculateTokens text + calculateTokens systemPrompt + calculateTokens question)
   \<and> (validateTokenLimit text systemPrompt question = Inr ()
      \<longleftrightarrow> calculateTokens text + calculateTokens systemPrompt + calculateTokens question \<le> 1000000)
   \<and> (\<forall>e. validateTokenLimit text systemPrompt question = Inl e \<longrightarrow>
         contentTokens e = calculateTokens text \<and> systemTokens e = calculateTokens systemPrompt
         \<and> questionTokens e = calculateTokens question
         \<and> totalTokensUsed e = contentTokens e + systemTokens e + questionTokens e
         \<and> exceededBy e = totalTokensUsed e - 1000000
         \<and> (\<forall>requestFn apiKeys.
               validateThenSend text systemPrompt question requestFn apiKeys
                 = (Inl e :: TokenLimitExceeded + 'a rotation)))
   \<and> (validateTokenLimit text systemPrompt question = Inr () \<longrightarrow>
         (\<forall>requestFn apiKeys.
            validateThenSend text systemPrompt question requestFn apiKeys
              = (Inr (retryWithApiKeyRotation requestFn apiKeys defaultMaxDurationMs)
                  :: TokenLimitExceeded + 'a rotation)))"
proof (intro conjI allI impI)
  fix e requestFn apiKeys
  assume "validateTokenLimit text systemPrompt question = Inl e"
  then show "validateThenSend text systemPrompt question requestFn apiKeys
                 = (Inl e :: TokenLimitExceeded + 'a rotation)"
    by (simp add: validateThenSend_def)
next
  fix requestFn apiKeys
  assume "validateTokenLimit text systemPrompt question = Inr ()"
  then show "validateThenSend text systemPrompt question requestFn apiKeys
              = (Inr (retryWithApiKeyRotation requestFn apiKeys defaultMaxDurationMs)
                  :: TokenLimitExceeded + 'a rotation)"
    by (simp add: validateThenSend_def)
qed (auto simp: validateTokenLimit_def Let_def GEMINI_25_PRO_TOKEN_LIMIT_def split: if_splits)

lemma calculateTokens_replicate_a:
  "calculateTokens (replicate n (CHR ''a'')) = (n + 3) div 4"
  by (simp add: calculateTokens_def basicEstimate_def newlineCount_def spaceCount_def
      specialCharsCount_def specialChars_def ceilTimes_def round53_def roundAt_def)

lemma calculateTokens_Nil: "calculateTokens [] = 0"
  using calculateTokens_replicate_a [of 0] by simp

theorem validateTokenLimit_throws_iff_witness:
  "(1000000 < calculateTokens (replicate 4000001 (CHR ''a'')) + calculateTokens [] + calculateTokens [])
   \<and> validateTokenLimit (replicate 4000001 (CHR ''a'')) [] []
       = Inl \<lparr>contentTokens = 1000001, systemTokens = 0, questionTokens = 0,
              totalTokensUsed = 1000001, exceededBy = 1\<rparr>
   \<and> validateThenSend (replicate 4000001 (CHR ''a'')) [] []
        (scriptedRequest [Returns ''ok''] 200) [''k1'']
       = Inl \<lparr>contentTokens = 1000001, systemTokens = 0, questionTokens = 0,
              totalTokensUsed = 1000001, exceededBy = 1\<rparr>
   \<and> calculateTokens (replicate 4000000 (CHR ''a'')) + calculateTokens [] + calculateTokens []
       \<le> 1000000
   \<and> validateTokenLimit (replicate 4000000 (CHR ''a'')) [] [] = Inr ()
   \<and> validateThenSend (replicate 4000000 (CHR ''a'')) [] []
        (scriptedRequest [Returns ''ok''] 200) [''k1'']
       = Inr \<lparr>outcome = Inr ''ok'', attempts = 1, keysTried = [Some ''k1''], elapsedMs = 200\<rparr>"
proof -
  have over: "1000000 < calculateTokens (replicate 4000001 (CHR ''a'')) + calculateTokens []
                + calculateTokens []"
    and under: "calculateTokens (replicate 4000000 (CHR ''a'')) + calculateTokens []
                + calculateTokens [] \<le> 1000000"
    by (simp_all add: calculateTokens_replicate_a calculateTokens_Nil)
  note a = validateTokenLimit_throws_iff
    [where 'a = string, of "replicate 4000001 (CHR ''a'')" "[]" "[]"]
  note b = validateTokenLimit_throws_iff
    [where 'a = string, of "replicate 4000000 (CHR ''a'')" "[]" "[]"]
  from a over obtain e where e: "validateTokenLimit (replicate 4000001 (CHR ''a'')) [] [] = Inl e"
    by blast
  with a have fields: "contentTokens e = 1000001" "systemTokens e = 0" "questionTokens e = 0"
    "totalTokensUsed e = 1000001" "exceededBy e = 1"
    by (simp_all add: calculateTokens_replicate_a calculateTokens_Nil)
  then have e_val: "e = \<lparr>contentTokens = 1000001, systemTokens = 0, questionTokens = 0,
              totalTokensUsed = 1000001, exceededBy = 1\<rparr>" by simp
  from a e have send: "validateThenSend (replicate 4000001 (CHR ''a'')) [] []
        (scriptedRequest [Returns ''ok''] 200) [''k1''] = Inl e" by blast
  from b under have ok: "validateTokenLimit (replicate 4000000 (CHR ''a'')) [] [] = Inr ()"
    by blast
  with b have "validateThenSend (replicate 4000000 (CHR ''a'')) [] []
        (scriptedRequest [Returns ''ok''] 200) [''k1'']
       = Inr (retryWithApiKeyRotation (scriptedRequest [Returns ''ok''] 200) [''k1'']
                defaultMaxDurationMs)" by blast
  then have sent: "validateThenSend (replicate 4000000 (CHR ''a'')) [] []
        (scriptedRequest [Returns ''ok''] 200) [''k1'']
       = Inr \<lparr>outcome = Inr ''ok'', attempts = 1, keysTried = [Some ''k1''], elapsedMs = 200\<rparr>"
    by (simp add: retryWithApiKeyRotation_def retryLoop.simps scriptedRequest_def keyAt_def
        defaultMaxDurationMs_def)
  from over under e e_val send ok sent show ?thesis by simp
qed

section \<open>Properties of the re-hydration\<close>

lemma readGroupFiles_paths:
  "map filePath (readGroupFiles readFile fds)
     = filter (\<lambda>p. readFile p \<noteq> None) (map filePath fds)"
  by (induction fds) (auto simp: readGroupFiles_def split: option.splits)

lemma readGroupFiles_tokens:
  "map tokens (readGroupFiles readFile fds)
     = map tokens (filter (\<lambda>fd. readFile (filePath fd) \<noteq> None) fds)"
  by (induction fds) (auto simp: readGroupFiles_def split: option.splits)

lemma readGroupFiles_content:
  "f \<in> set (readGroupFiles readFile fds) \<Longrightarrow> readFile (filePath f) = Some (content f)"
  by (induction fds) (auto simp: readGroupFiles_def split: option.splits)

text \<open>
  Claim C9. Re-hydration never fails on an unreadable file: for every plan and every
  file system, there is one reconstructed group per group of the plan, holding exactly
  the plan's files that can be read, in order, with their content; and the analysis
  yields one outcome per group of the plan.
\<close>

theorem rehydration_tolerates_unreadable:
  "length (reconstructGroups readFile plan) = length plan
   \<and> (\<forall>i<length plan.
         map filePath (files (reconstructGroups readFile plan ! i))
           = filter (\<lambda>p. readFile p \<noteq> None) (map filePath (files (plan ! i)))
         \<and> map tokens (files (reconstructGroups readFile plan ! i))
           = map tokens (filter (\<lambda>fd. readFile (filePath fd) \<noteq> None) (files (plan ! i)))
         \<and> (\<forall>f\<in>set (files (reconstructGroups readFile plan ! i)).
               readFile (filePath f) = Some (content f))
         \<and> totalTokens (reconstructGroups readFile plan ! i) = totalTokens (plan ! i)
         \<and> groupIndex (reconstructGroups readFile plan ! i) = groupIndex (plan ! i)
         \<and> customPrompt (reconstructGroups readFile plan ! i) = customPrompt (plan ! i))
   \<and> length (analyzePlan readFile gc apiKeys plan) = length plan
   \<and> (\<forall>i<length plan.
         analyzePlan readFile gc apiKeys plan ! i
           = analyzeGroup gc apiKeys (reconstructGroups readFile plan ! i) i)"
  by (simp add: reconstructGroups_def analyzePlan_def groupResults_length groupResults_nth
      readGroupFiles_paths readGroupFiles_tokens readGroupFiles_content)


theorem rehydration_tolerates_unreadable_witness:
  "let plan = [\<lparr>files = [\<lparr>filePath = ''a.ts'', tokens = 5\<rparr>, \<lparr>filePath = ''b.ts'', tokens = 7\<rparr>],
                 totalTokens = 12, groupIndex = 0, name = None, description = None,
                 reasoning = None, customPrompt = None\<rparr>,
               \<lparr>files = [\<lparr>filePath = ''c.ts'', tokens = 9\<rparr>],
                 totalTokens = 9, groupIndex = 1, name = None, description = None,
                 reasoning = None, customPrompt = None\<rparr>];
       readFile = map_of [(''a.ts'', ''x''), (''c.ts'', ''z'')];
       gc = worldByIndex secondFails 300
   in readFile ''b.ts'' = None
      \<and> reconstructGroups readFile plan =
          [\<lparr>files = [\<lparr>filePath = ''a.ts'', tokens = 5, content = ''x''\<rparr>],
            totalTokens = 12, groupIndex = 0, name = None, description = None,
            reasoning = None, customPrompt = None\<rparr>,
           \<lparr>files = [\<lparr>filePath = ''c.ts'', tokens = 9, content = ''z''\<rparr>],
            totalTokens = 9, groupIndex = 1, name = None, description = None,
            reasoning = None, customPrompt = None\<rparr>]
      \<and> length (reconstructGroups readFile plan) = length plan
      \<and> length (analyzePlan readFile gc [''k1''] plan) = 2"
  using rehydration_tolerates_unreadable
    [of "map_of [(''a.ts'', ''x''), (''c.ts'', ''z'')]"
        "[\<lparr>files = [\<lparr>filePath = ''a.ts'', tokens = 5\<rparr>, \<lparr>filePath = ''b.ts'', tokens = 7\<rparr>],
                 totalTokens = 12, groupIndex = 0, name = None, description = None,
                 reasoning = None, customPrompt = None\<rparr>,
               \<lparr>files = [\<lparr>filePath = ''c.ts'', tokens = 9\<rparr>],
                 totalTokens = 9, groupIndex = 1, name = None, description = None,
                 reasoning = None, customPrompt = None\<rparr>]"
        "worldByIndex secondFails 300" "[''k1'']"]
  by (simp add: Let_def reconstructGroups_def readGroupFiles_def)

section \<open>Properties of credential resolution\<close>

lemma splitKeys_spec: "splitKeys s = specKeysOfString s"
  by (simp add: splitKeys_def specKeysOfString_def)

text \<open>
  Claim C10, amended for a string without a comma. When \<open>geminiApiKeys\<close> is a
  non-empty string or a non-empty array the result comes from it alone and no other
  source is read: a string with a comma is split, each entry trimmed and the empty
  entries dropped; a string without a comma is the single key, as it is, untrimmed; an
  array is returned as it is. When no source yields a key the result is empty.
\<close>

theorem resolveApiKeys_precedence:
  "(\<forall>s. geminiApiKeys params = Some (KeysString s) \<and> s \<noteq> [] \<longrightarrow>
        resolveApiKeys params env
          = (if CHR '','' \<in> set s
             then filter (\<lambda>key. key \<noteq> []) (map trim (splitOn (CHR '','') s))
             else [s]))
   \<and> (\<forall>ks. geminiApiKeys params = Some (KeysArray ks) \<and> ks \<noteq> [] \<longrightarrow>
        resolveApiKeys params env = ks)
   \<and> (\<forall>params' env'.
        geminiApiKeys params' = geminiApiKeys params
        \<and> (case geminiApiKeys params of
              None \<Rightarrow> False
            | Some (KeysString s) \<Rightarrow> s \<noteq> []
            | Some (KeysArray ks) \<Rightarrow> ks \<noteq> [])
        \<longrightarrow> resolveApiKeys params' env' = resolveApiKeys params env)
   \<and> (yieldsNoKey params env \<longrightarrow> resolveApiKeys params env = [])"
  by (auto simp: resolveApiKeys_def fromGeminiApiKeys_def fromGeminiApiKeysArray_def
      keysOfString_def splitKeys_def yieldsNoKey_def Let_def
      split: option.splits keysValue.splits)

theorem resolveApiKeys_precedence_witness:
  "let params = \<lparr>geminiApiKeys = Some (KeysString ''k1, k2 ,,k3''),
                  geminiApiKeysArray = Some [''fromArray''], geminiApiKey = Some ''old'',
                  numberedKey = noNumberedKeys\<rparr>;
       none = \<lparr>geminiApiKeys = None, geminiApiKeysArray = None, geminiApiKey = None,
                numberedKey = noNumberedKeys\<rparr>
   in resolveApiKeys params (Some ''fromEnv'') = [''k1'', ''k2'', ''k3'']
      \<and> resolveApiKeys (onlyGeminiApiKeys ''k1, k2 ,,k3'') None
          = resolveApiKeys params (Some ''fromEnv'')
      \<and> resolveApiKeys (params\<lparr>geminiApiKeys := Some (KeysArray [''a1'', ''a2''])\<rparr>)
            (Some ''fromEnv'') = [''a1'', ''a2'']
      \<and> yieldsNoKey none None \<and> resolveApiKeys none None = []"
proof -
  define params where "params = \<lparr>geminiApiKeys = Some (KeysString ''k1, k2 ,,k3''),
                  geminiApiKeysArray = Some [''fromArray''], geminiApiKey = Some ''old'',
                  numberedKey = noNumberedKeys\<rparr>"
  define none where "none = \<lparr>geminiApiKeys = None, geminiApiKeysArray = None,
                  geminiApiKey = None, numberedKey = noNumberedKeys\<rparr>"
  have y: "yieldsNoKey none None"
    by (simp add: none_def yieldsNoKey_def legacyKeys_def numberedKeys_def environmentKeys_def
        noNumberedKeys_def)
  from resolveApiKeys_precedence [of params "Some ''fromEnv''"]
  have a: "resolveApiKeys params (Some ''fromEnv'') = [''k1'', ''k2'', ''k3'']"
    and b: "resolveApiKeys (onlyGeminiApiKeys ''k1, k2 ,,k3'') None
          = resolveApiKeys params (Some ''fromEnv'')"
    by (simp_all add: params_def onlyGeminiApiKeys_def trim_def isWhiteSpace_def)
  from resolveApiKeys_precedence
    [of "params\<lparr>geminiApiKeys := Some (KeysArray [''a1'', ''a2''])\<rparr>" "Some ''fromEnv''"]
  have c: "resolveApiKeys (params\<lparr>geminiApiKeys := Some (KeysArray [''a1'', ''a2''])\<rparr>)
            (Some ''fromEnv'') = [''a1'', ''a2'']"
    by (simp add: params_def)
  from resolveApiKeys_precedence [of none None] y
  have d: "resolveApiKeys none None = []" by simp
  from a b c d y show ?thesis by (simp add: params_def none_def Let_def)
qed

text \<open>The claim as stated fails for a key given with blanks around it and no comma: split,
  trimmed and filtered it would be \<open>abc\<close>, the code returns it with its blanks.\<close>

theorem resolveApiKeys_counterexample:
  "resolveApiKeys (onlyGeminiApiKeys '' abc '') None = ['' abc '']
   \<and> specKeysOfString '' abc '' = [''abc'']
   \<and> resolveApiKeys (onlyGeminiApiKeys '' abc '') None \<noteq> specKeysOfString '' abc ''"
  by (simp add: resolveApiKeys_def fromGeminiApiKeys_def keysOfString_def specKeysOfString_def
      trim_def isWhiteSpace_def onlyGeminiApiKeys_def)

section \<open>Properties of the assisted strategy\<close>

lemma listedPaths_groups:
  "getProp j ''groups'' = Inr proposed \<Longrightarrow> forOf proposed = Inr gs
    \<Longrightarrow> listedPaths j = concat (map groupPaths gs)"
  by (simp add: listedPaths_def propOrUndefined_def)

lemma resolveFiles_append:
  "resolveFiles fs (ps @ qs) = resolveFiles fs ps @ resolveFiles fs qs"
  by (simp add: resolveFiles_def List.map_filter_def)

lemma resolveFiles_Nil [simp]: "resolveFiles fs [] = []"
  by (simp add: resolveFiles_def List.map_filter_def)

lemma findFile_Some: "findFile fs p = Some f \<Longrightarrow> f \<in> set fs \<and> p = JStr (filePath f)"
  by (auto simp: findFile_def find_Some_iff)

lemma resolveFiles_Cons:
  "resolveFiles fs (p # ps)
     = (case findFile fs p of None \<Rightarrow> resolveFiles fs ps | Some f \<Rightarrow> f # resolveFiles fs ps)"
  by (simp add: resolveFiles_def split: option.splits)

lemma resolveFiles_subset: "f \<in> set (resolveFiles fs ps) \<Longrightarrow> f \<in> set fs \<and> JStr (filePath f) \<in> set ps"
proof (induction ps)
  case Nil
  then show ?case by simp
next
  case (Cons p ps)
  then show ?case
    by (auto simp: resolveFiles_Cons split: option.splits dest: findFile_Some)
qed

lemma resolveFiles_distinct:
  "distinct (filter (\<lambda>p. p \<in> set (map (JStr \<circ> filePath) fs)) ps)
    \<Longrightarrow> distinct (resolveFiles fs ps)"
proof (induction ps)
  case Nil
  then show ?case by simp
next
  case (Cons p ps)
  show ?case
  proof (cases "findFile fs p")
    case None
    with Cons show ?thesis by (simp add: resolveFiles_Cons split: if_splits)
  next
    case (Some f)
    from findFile_Some [OF Some] have f: "f \<in> set fs" "p = JStr (filePath f)" by simp_all
    then have inm: "p \<in> set (map (JStr \<circ> filePath) fs)" by auto
    with Cons.prems have np: "p \<notin> set ps" and d: "distinct (filter (\<lambda>p. p \<in> set (map (JStr \<circ> filePath) fs)) ps)"
      by auto
    have "f \<notin> set (resolveFiles fs ps)"
      using resolveFiles_subset [of f fs ps] np f(2) by auto
    with Cons.IH [OF d] Some show ?thesis by (simp add: resolveFiles_Cons)
  qed
qed

lemma resolveFiles_concat:
  "resolveFiles fs (concat pss) = concat (map (resolveFiles fs) pss)"
  by (induction pss) (simp_all add: resolveFiles_append)

lemma aiGroupLoop_files:
  "aiGroupLoop fs m gs acc idx = Inr (res, idx')
    \<Longrightarrow> mset (allFiles res)
        = mset (allFiles acc) + mset (resolveFiles fs (concat (map groupPaths gs)))"
proof (induction gs arbitrary: acc idx)
  case Nil
  then show ?case by simp
next
  case (Cons g gs)
  from Cons.prems obtain listed paths where
    g: "getProp g ''files'' = Inr listed" "forOf listed = Inr paths"
    by (auto split: sum.splits)
  then have gp: "groupPaths g = paths"
    by (simp add: groupPaths_def propOrUndefined_def)
  let ?gf = "resolveFiles fs paths"
  show ?case
  proof (cases "foldl numberPlus 0 (map tokens ?gf) > m")
    case True
    with Cons.prems g have
      "aiGroupLoop fs m gs (acc @ createFileGroupsAlgorithmic ?gf m idx)
         (idx + length (createFileGroupsAlgorithmic ?gf m idx)) = Inr (res, idx')"
      by (simp add: Let_def)
    from Cons.IH [OF this] show ?thesis
      by (simp add: gp resolveFiles_append algorithmic_mset)
  next
    case False
    with Cons.prems g obtain grp where
      "aiGroupLoop fs m gs (acc @ [grp]) (idx + 1) = Inr (res, idx')" "files grp = ?gf"
      by (simp add: Let_def)
    from Cons.IH [OF this(1)] this(2) show ?thesis
      by (simp add: gp resolveFiles_append)
  qed
qed

lemma aiGroupLoop_totalOk:
  assumes "aiGroupLoop fs m gs acc idx = Inr (res, idx')"
    and "\<forall>g\<in>set acc. totalOk g"
    and "\<forall>f\<in>set fs. 0 \<le> tokens f"
    and "\<forall>g\<in>set gs. sum_list (map tokens (resolveFiles fs (groupPaths g))) < 2 ^ 53"
  shows "\<forall>g\<in>set res. totalOk g"
  using assms(1,2,4)
proof (induction gs arbitrary: acc idx)
  case Nil
  then show ?case by simp
next
  case (Cons g gs)
  from Cons.prems(1) obtain listed paths where
    g: "getProp g ''files'' = Inr listed" "forOf listed = Inr paths"
    by (auto split: sum.splits)
  then have gp: "groupPaths g = paths"
    by (simp add: groupPaths_def propOrUndefined_def)
  let ?gf = "resolveFiles fs paths"
  have nn: "\<forall>f\<in>set ?gf. 0 \<le> tokens f"
    using assms(3) resolveFiles_subset [of _ fs paths] by blast
  have bound: "sum_list (map tokens ?gf) < 2 ^ 53"
    using Cons.prems(3) gp by simp
  have rest: "\<forall>g\<in>set gs. sum_list (map tokens (resolveFiles fs (groupPaths g))) < 2 ^ 53"
    using Cons.prems(3) by simp
  have total: "foldl numberPlus 0 (map tokens ?gf) = sum_list (map tokens ?gf)"
    using foldl_numberPlus_exact [of "map tokens ?gf" 0] nn bound by simp
  show ?case
  proof (cases "sum_list (map tokens ?gf) > m")
    case True
    with Cons.prems(1) g have run:
      "aiGroupLoop fs m gs (acc @ createFileGroupsAlgorithmic ?gf m idx)
         (idx + length (createFileGroupsAlgorithmic ?gf m idx)) = Inr (res, idx')"
      by (simp add: Let_def total)
    have "\<forall>g\<in>set (acc @ createFileGroupsAlgorithmic ?gf m idx). totalOk g"
      using Cons.prems(2) algorithmic_totalOk [OF nn bound, of m idx] by auto
    from Cons.IH [OF run this rest] show ?thesis .
  next
    case False
    with Cons.prems(1) g obtain grp where run:
      "aiGroupLoop fs m gs (acc @ [grp]) (idx + 1) = Inr (res, idx')"
      and grp: "files grp = ?gf" "totalTokens grp = sum_list (map tokens ?gf)"
      by (simp add: Let_def total)
    have "\<forall>g\<in>set (acc @ [grp]). totalOk g"
      using Cons.prems(2) grp by (auto simp: totalOk_def)
    from Cons.IH [OF run this rest] show ?thesis .
  qed
qed

text \<open>What a successful run of the \<open>try\<close> block returns: the groups of the loop and,
  when files are left whose path is in none of them, the deterministic groups of these;
  the loop's groups hold the files found for the listed paths, a file as often as it is
  listed.\<close>

lemma aiGrouping_result:
  assumes "aiGrouping fs m (Parsed j) = Inr res"
  obtains gs aiGroups idx where
    "listedPaths j = concat (map groupPaths gs)"
    "aiGroupLoop fs m gs [] 0 = Inr (aiGroups, idx)"
    "mset (allFiles aiGroups) = mset (resolveFiles fs (listedPaths j))"
    "res = (if filter (\<lambda>f. filePath f \<notin> filePath ` set (resolveFiles fs (listedPaths j))) fs = []
            then aiGroups
            else aiGroups @ createFileGroupsAlgorithmic
                   (filter (\<lambda>f. filePath f \<notin> filePath ` set (resolveFiles fs (listedPaths j))) fs)
                   m idx)"
proof -
  from assms obtain proposed gs aiGroups idx where
    p: "getProp j ''groups'' = Inr proposed" "forOf proposed = Inr gs"
    and loop: "aiGroupLoop fs m gs [] 0 = Inr (aiGroups, idx)"
    by (auto simp: aiGrouping_def split: sum.splits)
  let ?R = "resolveFiles fs (listedPaths j)"
  note lp = listedPaths_groups [OF p]
  from aiGroupLoop_files [OF loop] lp
  have ms: "mset (allFiles aiGroups) = mset ?R" by simp
  have inc: "set (allFiles aiGroups) = set ?R"
    using mset_eq_setD [OF ms] .
  let ?rem = "filter (\<lambda>f. filePath f \<notin> filePath ` set ?R) fs"
  from assms p loop inc
  have "res = (if ?rem \<noteq> [] then aiGroups @ createFileGroupsAlgorithmic ?rem m idx
                    else aiGroups)"
    by (simp add: aiGrouping_def Let_def split: if_splits)
  then have "res = (if ?rem = [] then aiGroups
                    else aiGroups @ createFileGroupsAlgorithmic ?rem m idx)"
    by (cases "?rem = []") simp_all
  with lp loop ms show thesis by (rule that)
qed

lemma aiGrouping_files:
  assumes "aiGrouping fs m (Parsed j) = Inr res"
  shows "mset (allFiles res)
           = mset (resolveFiles fs (listedPaths j))
             + mset (filter (\<lambda>f. filePath f \<notin> filePath ` set (resolveFiles fs (listedPaths j))) fs)"
proof -
  let ?R = "resolveFiles fs (listedPaths j)"
  let ?rem = "filter (\<lambda>f. filePath f \<notin> filePath ` set ?R) fs"
  from assms obtain gs aiGroups idx where
    ms: "mset (allFiles aiGroups) = mset ?R"
    and res: "res = (if ?rem = [] then aiGroups
                     else aiGroups @ createFileGroupsAlgorithmic ?rem m idx)"
    by (rule aiGrouping_result)
  show ?thesis
  proof (cases "?rem = []")
    case True
    from res have "res = aiGroups" by (subst (asm) True) simp
    moreover have "mset ?rem = {#}" by (subst True) simp
    ultimately show ?thesis using ms by simp
  next
    case False
    with res ms show ?thesis by (simp add: algorithmic_mset)
  qed
qed

lemma listed_and_remaining:
  assumes "distinct (map filePath fs)" "distinct R" "set R \<subseteq> set fs"
  shows "mset R + mset (filter (\<lambda>f. filePath f \<notin> filePath ` set R) fs) = mset fs"
proof -
  have inj: "inj_on filePath (set fs)" and dfs: "distinct fs"
    using assms(1) by (simp_all add: distinct_map)
  have iff: "filePath f \<in> filePath ` set R \<longleftrightarrow> f \<in> set R" if "f \<in> set fs" for f
    using inj assms(3) that by (auto dest: inj_onD)
  have rem: "filter (\<lambda>f. filePath f \<notin> filePath ` set R) fs = filter (\<lambda>f. f \<notin> set R) fs"
    by (rule filter_cong) (simp_all add: iff)
  have seteq: "set R = set (filter (\<lambda>f. f \<in> set R) fs)" using assms(3) by auto
  have "distinct (filter (\<lambda>f. f \<in> set R) fs)" using dfs by simp
  from set_eq_iff_mset_eq_distinct [OF assms(2) this] seteq
  have "mset R = mset (filter (\<lambda>f. f \<in> set R) fs)" by (rule iffD1)
  then show ?thesis
    unfolding rem by (simp add: multiset_partition [symmetric])
qed

lemma sum_list_filter_le:
  "\<forall>x\<in>set xs. 0 \<le> f x \<Longrightarrow> sum_list (map f (filter P xs)) \<le> sum_list (map f xs)"
  for f :: "'a \<Rightarrow> int"
  by (induction xs) (auto intro: add_increasing)

lemma sum_list_map_concat:
  "sum_list (map f (concat xss)) = sum_list (map (\<lambda>xs. sum_list (map f xs)) xss)"
  for f :: "'a \<Rightarrow> int"
  by (induction xss) simp_all

lemma aiGrouping_totalOk:
  assumes res: "aiGrouping fs m (Parsed j) = Inr res"
    and dp: "distinct (map filePath fs)"
    and dR: "distinct (resolveFiles fs (listedPaths j))"
    and nn: "\<forall>f\<in>set fs. 0 \<le> tokens f"
    and bound: "sum_list (map tokens fs) < 2 ^ 53"
  shows "\<forall>g\<in>set res. totalOk g"
proof -
  let ?R = "resolveFiles fs (listedPaths j)"
  let ?rem = "filter (\<lambda>f. filePath f \<notin> filePath ` set ?R) fs"
  from res obtain gs aiGroups idx where
    lp: "listedPaths j = concat (map groupPaths gs)"
    and loop: "aiGroupLoop fs m gs [] 0 = Inr (aiGroups, idx)"
    and r: "res = (if ?rem = [] then aiGroups
                   else aiGroups @ createFileGroupsAlgorithmic ?rem m idx)"
    by (rule aiGrouping_result)
  have sub: "set ?R \<subseteq> set fs" using resolveFiles_subset by blast
  have nnR: "\<forall>f\<in>set ?R. 0 \<le> tokens f" using sub nn by blast
  have nnrem: "\<forall>f\<in>set ?rem. 0 \<le> tokens f" using nn by simp
  have "sum_list (map tokens ?R) + sum_list (map tokens ?rem) = sum_list (map tokens fs)"
    using sum_list_map_mset_cong [of "?R @ ?rem" fs tokens]
      listed_and_remaining [OF dp dR sub] by simp
  with sum_list_map_nonneg [OF nnR] sum_list_map_nonneg [OF nnrem] bound
  have bR: "sum_list (map tokens ?R) < 2 ^ 53" and brem: "sum_list (map tokens ?rem) < 2 ^ 53"
    by simp_all
  have each: "\<forall>g\<in>set gs. sum_list (map tokens (resolveFiles fs (groupPaths g))) < 2 ^ 53"
  proof
    fix g assume g: "g \<in> set gs"
    have nng: "\<forall>g\<in>set gs. 0 \<le> sum_list (map tokens (resolveFiles fs (groupPaths g)))"
      using nn resolveFiles_subset by (intro ballI sum_list_map_nonneg) blast
    have "sum_list (map tokens ?R)
            = sum_list (map (\<lambda>g. sum_list (map tokens (resolveFiles fs (groupPaths g)))) gs)"
      by (simp add: lp resolveFiles_concat sum_list_map_concat comp_def)
    with sum_list_member_le [OF nng g] bR
    show "sum_list (map tokens (resolveFiles fs (groupPaths g))) < 2 ^ 53" by simp
  qed
  have ok: "\<forall>g\<in>set aiGroups. totalOk g"
    using aiGroupLoop_totalOk [OF loop _ nn each] by simp
  show ?thesis
  proof (cases "?rem = []")
    case True
    from r have "res = aiGroups" by (subst (asm) True) simp
    with ok show ?thesis by simp
  next
    case False
    with r ok algorithmic_totalOk [OF nnrem brem, of m idx] show ?thesis by auto
  qed
qed

text \<open>
  Claim C4, amended: the proposal must not list a file of the manifest more than once,
  and the paths of the manifest must differ pairwise. Then, whatever else the proposal
  does (paths the manifest does not have, files left out, groups above the ceiling, a
  shape that makes the loops throw), the groups returned hold every file of the
  manifest exactly once, each file in exactly one group; and when the token costs are
  non-negative and their total is below \<open>2 ^ 53\<close>, the range in which their additions
  are exact, the \<open>totalTokens\<close> of the groups add up to the token costs of the files.
\<close>

theorem createFileGroupsWithAI_partition:
  assumes "distinct (map filePath fs)"
    and "distinct (listedManifestPaths fs groupingData)"
  shows "mset (allFiles (createFileGroupsWithAI fs m (Parsed groupingData))) = mset fs
     \<and> (\<forall>f\<in>set fs. inExactlyOneGroup (createFileGroupsWithAI fs m (Parsed groupingData)) f)
     \<and> ((\<forall>f\<in>set fs. 0 \<le> tokens f) \<and> sum_list (map tokens fs) < 2 ^ 53 \<longrightarrow>
          sum_list (map totalTokens (createFileGroupsWithAI fs m (Parsed groupingData)))
            = sum_list (map tokens fs))"
proof -
  let ?gs = "createFileGroupsWithAI fs m (Parsed groupingData)"
  let ?R = "resolveFiles fs (listedPaths groupingData)"
  have dfs: "distinct fs" using assms(1) by (simp add: distinct_map)
  have dR: "distinct ?R"
    using assms(2) unfolding listedManifestPaths_def by (rule resolveFiles_distinct)
  have ms: "mset (allFiles ?gs) = mset fs"
  proof (cases "aiGrouping fs m (Parsed groupingData)")
    case (Inl e)
    then have "?gs = createFileGroupsAlgorithmic fs m 0"
      by (simp add: createFileGroupsWithAI_def)
    then show ?thesis by (simp add: algorithmic_mset)
  next
    case (Inr res)
    then have gs: "?gs = res" by (simp add: createFileGroupsWithAI_def)
    have "set ?R \<subseteq> set fs" using resolveFiles_subset by blast
    with dR have "mset ?R + mset (filter (\<lambda>f. filePath f \<notin> filePath ` set ?R) fs) = mset fs"
      using assms(1) by (intro listed_and_remaining)
    with aiGrouping_files [OF Inr] show ?thesis unfolding gs by simp
  qed
  have one: "inExactlyOneGroup ?gs f" if "f \<in> set fs" for f
  proof (rule distinct_allFiles_exactly_one)
    show "distinct (allFiles ?gs)" using mset_eq_imp_distinct_iff [OF ms] dfs by simp
    show "f \<in> set (allFiles ?gs)" using mset_eq_setD [OF ms] that by simp
  qed
  have sum: "sum_list (map totalTokens ?gs) = sum_list (map tokens fs)"
    if nn: "\<forall>f\<in>set fs. 0 \<le> tokens f" and bound: "sum_list (map tokens fs) < 2 ^ 53"
  proof -
    have ok: "\<forall>g\<in>set ?gs. totalOk g"
    proof (cases "aiGrouping fs m (Parsed groupingData)")
      case (Inl e)
      then have "?gs = createFileGroupsAlgorithmic fs m 0"
        by (simp add: createFileGroupsWithAI_def)
      then show ?thesis using algorithmic_totalOk [OF nn bound] by simp
    next
      case (Inr res)
      then have gs: "?gs = res" by (simp add: createFileGroupsWithAI_def)
      show ?thesis unfolding gs using Inr assms(1) dR nn bound by (rule aiGrouping_totalOk)
    qed
    show ?thesis
      using totalOk_sum [OF ok] sum_list_map_mset_cong [OF ms, of tokens] by simp
  qed
  from ms one sum show ?thesis by blast
qed

text \<open>The claim as stated fails for a proposal that lists a file in two groups: the file
  is put in both, and its cost is counted twice.\<close>

theorem createFileGroupsWithAI_counterexample:
  "createFileGroupsWithAI [oneFile] 900000 (Parsed listedTwice)
     = [\<lparr>files = [oneFile], totalTokens = 10, groupIndex = 0, name = Some (JStr ''first''),
         description = None, reasoning = None, customPrompt = None\<rparr>,
        \<lparr>files = [oneFile], totalTokens = 10, groupIndex = 1, name = Some (JStr ''second''),
         description = None, reasoning = None, customPrompt = None\<rparr>]
   \<and> sum_list (map totalTokens (createFileGroupsWithAI [oneFile] 900000 (Parsed listedTwice))) = 20
   \<and> sum_list (map tokens [oneFile]) = 10
   \<and> \<not> inExactlyOneGroup (createFileGroupsWithAI [oneFile] 900000 (Parsed listedTwice)) oneFile"
proof -
  have v: "createFileGroupsWithAI [oneFile] 900000 (Parsed listedTwice)
     = [\<lparr>files = [oneFile], totalTokens = 10, groupIndex = 0, name = Some (JStr ''first''),
         description = None, reasoning = None, customPrompt = None\<rparr>,
        \<lparr>files = [oneFile], totalTokens = 10, groupIndex = 1, name = Some (JStr ''second''),
         description = None, reasoning = None, customPrompt = None\<rparr>]"
    by (simp add: listedTwice_def oneFile_def createFileGroupsWithAI_def aiGrouping_def getProp_def
      forOf_def propOrUndefined_def resolveFiles_def findFile_def
      createFileGroupsAlgorithmic_def Let_def numberPlus_exact)
  have "\<not> inExactlyOneGroup (createFileGroupsWithAI [oneFile] 900000 (Parsed listedTwice)) oneFile"
  proof
    assume "inExactlyOneGroup (createFileGroupsWithAI [oneFile] 900000 (Parsed listedTwice)) oneFile"
    then have "\<exists>!i. i < length (createFileGroupsWithAI [oneFile] 900000 (Parsed listedTwice))
                  \<and> oneFile \<in> set (files (createFileGroupsWithAI [oneFile] 900000
                                                (Parsed listedTwice) ! i))"
      unfolding inExactlyOneGroup_def .
    moreover have "0 < length (createFileGroupsWithAI [oneFile] 900000 (Parsed listedTwice))
                  \<and> oneFile \<in> set (files (createFileGroupsWithAI [oneFile] 900000
                                                (Parsed listedTwice) ! 0))"
      by (simp add: v)
    moreover have "1 < length (createFileGroupsWithAI [oneFile] 900000 (Parsed listedTwice))
                  \<and> oneFile \<in> set (files (createFileGroupsWithAI [oneFile] 900000
                                                (Parsed listedTwice) ! 1))"
      by (simp add: v)
    ultimately have "(0::nat) = 1" by blast
    then show False by simp
  qed
  with v show ?thesis by (simp add: oneFile_def)
qed

theorem createFileGroupsWithAI_partition_witness:
  "distinct (map filePath threeFiles)
   \<and> distinct (listedManifestPaths threeFiles partialProposal)
   \<and> list_all (\<lambda>f. 0 \<le> tokens f) threeFiles
   \<and> sum_list (map tokens threeFiles) = 60
   \<and> sum_list (map tokens threeFiles) < 2 ^ 53
   \<and> map (map filePath \<circ> files) (createFileGroupsWithAI threeFiles 100 (Parsed partialProposal))
       = [[''a.ts''], [''b.ts''], [''c.ts'']]
   \<and> mset (allFiles (createFileGroupsWithAI threeFiles 100 (Parsed partialProposal)))
       = mset threeFiles
   \<and> sum_list (map totalTokens (createFileGroupsWithAI threeFiles 100 (Parsed partialProposal)))
       = 60
   \<and> inExactlyOneGroup (createFileGroupsWithAI threeFiles 100 (Parsed partialProposal))
        (threeFiles ! 0)
   \<and> inExactlyOneGroup (createFileGroupsWithAI threeFiles 100 (Parsed partialProposal))
        (threeFiles ! 1)
   \<and> inExactlyOneGroup (createFileGroupsWithAI threeFiles 100 (Parsed partialProposal))
        (threeFiles ! 2)"
proof -
  have a: "distinct (map filePath threeFiles)" by (simp add: threeFiles_def)
  have b: "distinct (listedManifestPaths threeFiles partialProposal)"
    by (simp add: threeFiles_def partialProposal_def listedManifestPaths_def listedPaths_def
        groupPaths_def forOf_def propOrUndefined_def getProp_def)
  have n: "\<forall>f\<in>set threeFiles. 0 \<le> tokens f" by (simp add: threeFiles_def)
  have c: "map (map filePath \<circ> files)
             (createFileGroupsWithAI threeFiles 100 (Parsed partialProposal))
       = [[''a.ts''], [''b.ts''], [''c.ts'']]"
    by (simp add: threeFiles_def partialProposal_def createFileGroupsWithAI_def aiGrouping_def getProp_def
      forOf_def propOrUndefined_def resolveFiles_def findFile_def
      createFileGroupsAlgorithmic_def Let_def numberPlus_exact)
  have d: "sum_list (map tokens threeFiles) = 60" by (simp add: threeFiles_def)
  have m: "threeFiles ! 0 \<in> set threeFiles" "threeFiles ! 1 \<in> set threeFiles"
    "threeFiles ! 2 \<in> set threeFiles"
    by (simp_all add: threeFiles_def)
  from createFileGroupsWithAI_partition [OF a b, of 100] a b n c d m show ?thesis
    by (simp add: list_all_iff)
qed

text \<open>Why the paths of the manifest must differ: \<open>find\<close> returns the first file of a
  path, and the second is neither in a proposed group nor among the remaining files.\<close>

lemma same_path_example:
  "map (map content \<circ> files) (createFileGroupsWithAI samePathTwice 100 (Parsed partialProposal))
     = [[''x''], []]"
  by (simp add: samePathTwice_def partialProposal_def createFileGroupsWithAI_def aiGrouping_def getProp_def
      forOf_def propOrUndefined_def resolveFiles_def findFile_def
      createFileGroupsAlgorithmic_def Let_def numberPlus_exact)

text \<open>
  Claim C5. When the assisted call fails (the request or \<open>response.text()\<close> throws, no
  JSON is found, \<open>JSON.parse\<close> throws, or the parsed value has not the shape the loops
  read, which throws a \<open>TypeError\<close>), the result is that of the deterministic strategy
  on the whole manifest, which drops no file.
\<close>

theorem assisted_failure_falls_back:
  "createFileGroupsWithAI fs m (CallThrows e) = createFileGroupsAlgorithmic fs m 0
   \<and> createFileGroupsWithAI fs m NoJsonMatch = createFileGroupsAlgorithmic fs m 0
   \<and> createFileGroupsWithAI fs m ParseThrows = createFileGroupsAlgorithmic fs m 0
   \<and> (\<forall>response err. aiGrouping fs m response = Inl err \<longrightarrow>
         createFileGroupsWithAI fs m response = createFileGroupsAlgorithmic fs m 0)
   \<and> mset (allFiles (createFileGroupsAlgorithmic fs m 0)) = mset fs"
  by (simp add: createFileGroupsWithAI_def aiGrouping_def algorithmic_mset)

theorem assisted_failure_falls_back_witness:
  "aiGrouping threeFiles 25 (Parsed wrongShape) = Inl TypeError
   \<and> createFileGroupsWithAI threeFiles 25 (Parsed wrongShape)
       = createFileGroupsAlgorithmic threeFiles 25 0
   \<and> map (map filePath \<circ> files) (createFileGroupsWithAI threeFiles 25 (Parsed wrongShape))
       = [[''a.ts''], [''c.ts''], [''b.ts'']]
   \<and> createFileGroupsWithAI threeFiles 25 ParseThrows
       = createFileGroupsAlgorithmic threeFiles 25 0"
proof -
  have a: "aiGrouping threeFiles 25 (Parsed wrongShape) = Inl TypeError"
    by (simp add: wrongShape_def aiGrouping_def getProp_def forOf_def)
  have b: "map (map filePath \<circ> files) (createFileGroupsAlgorithmic threeFiles 25 0)
       = [[''a.ts''], [''c.ts''], [''b.ts'']]"
    by (simp add: threeFiles_def createFileGroupsAlgorithmic_def numberPlus_exact)
  from assisted_failure_falls_back [of threeFiles 25] a b show ?thesis by simp
qed

end
